theory Spec2Isabelle
  imports Complex_Main
begin

section \<open>VrManager: the registry of connected VR displays (src/vr/vr-manager.js)\<close>

text \<open>
  The platform hands the manager \<open>VRDisplay\<close> objects; the manager reads only their
  \<open>displayId\<close> (an unsigned integer in the WebVR interface, so no key of the index
  object collides with a property that every JavaScript object inherits).
\<close>

record platform_display =
  displayId :: nat

text \<open>
  Modelled from the spec: the wrapper class \<open>pc.VrDisplay\<close> is not part of the sources.
  The registry is "a mapping from a platform-assigned display identifier to an owned display
  wrapper", so the wrapper built by \<open>new pc.VrDisplay(app, vrDisplay)\<close> carries the
  platform identifier in its \<open>id\<close> field. Every \<open>new\<close> yields a distinct object:
  \<open>ref\<close> is the identity of the object, which is what \<open>===\<close> and \<open>indexOf\<close>
  compare. Calling \<open>destroy()\<close> on a wrapper is recorded in the manager's \<open>destroyed\<close> log.
\<close>

record vr_display =
  ref :: nat
  display_id :: nat

datatype notification =
    DisplayConnect vr_display
  | DisplayDisconnect vr_display
  | Ready "vr_display list"
  | Error

record VrManager =
  index :: "nat \<rightharpoonup> vr_display"
  displays :: "vr_display list"
  display :: "vr_display option"
  attached :: bool
  fired :: "notification list"
  destroyed :: "nat list"
  next_ref :: nat

text \<open>
  The constructor up to and including \<open>self._attach()\<close>: empty index, empty list, no
  primary display, listeners registered. The asynchronous answer of \<open>_getDisplays\<close>
  arrives later, as an event.
\<close>

definition new_VrManager :: VrManager where
  "new_VrManager =
     \<lparr>index = Map.empty, displays = [], display = None, attached = True,
      fired = [], destroyed = [], next_ref = 0\<rparr>"

definition detach :: "VrManager \<Rightarrow> VrManager" where
  "detach s = s\<lparr>attached := False\<rparr>"

definition destroy :: "VrManager \<Rightarrow> VrManager" where
  "destroy s = detach s"

definition fire :: "notification \<Rightarrow> VrManager \<Rightarrow> VrManager" where
  "fire n s = s\<lparr>fired := fired s @ [n]\<rparr>"

definition new_VrDisplay :: "platform_display \<Rightarrow> VrManager \<Rightarrow> vr_display \<times> VrManager" where
  "new_VrDisplay v s =
     (\<lparr>ref = next_ref s, display_id = displayId v\<rparr>, s\<lparr>next_ref := Suc (next_ref s)\<rparr>)"

definition addDisplay :: "platform_display \<Rightarrow> VrManager \<Rightarrow> VrManager" where
  "addDisplay v s =
     (if index s (displayId v) \<noteq> None then s
      else
        let (d, s1) = new_VrDisplay v s;
            s2 = s1\<lparr>index := (index s1)(display_id d \<mapsto> d)\<rparr>;
            s3 = s2\<lparr>displays := displays s2 @ [d]\<rparr>;
            s4 = (if display s3 = None then s3\<lparr>display := Some d\<rparr> else s3)
        in fire (DisplayConnect d) s4)"

definition onDisplayConnect :: "platform_display \<Rightarrow> VrManager \<Rightarrow> VrManager" where
  "onDisplayConnect v s = addDisplay v s"

text \<open>\<open>Array.prototype.indexOf\<close> on objects: the first position holding the same object, or -1.\<close>

fun indexOf :: "vr_display list \<Rightarrow> vr_display \<Rightarrow> int" where
  "indexOf [] d = -1"
| "indexOf (x # xs) d =
     (if ref x = ref d then 0
      else (let k = indexOf xs d in if k < 0 then -1 else k + 1))"

text \<open>
  \<open>xs.splice(start, 1)\<close>: a negative \<open>start\<close> counts from the end (so -1 removes the last
  element), a \<open>start\<close> beyond the end removes nothing.
\<close>

definition splice1 :: "int \<Rightarrow> 'a list \<Rightarrow> 'a list" where
  "splice1 start xs =
     (let n = int (length xs);
          k = nat (if start < 0 then max (n + start) 0 else min start n)
      in take k xs @ drop (Suc k) xs)"

definition same_object :: "vr_display option \<Rightarrow> vr_display \<Rightarrow> bool" where
  "same_object p d = (case p of None \<Rightarrow> False | Some q \<Rightarrow> ref q = ref d)"

definition onDisplayDisconnect :: "platform_display \<Rightarrow> VrManager \<Rightarrow> VrManager" where
  "onDisplayDisconnect v s =
     (case index s (displayId v) of
        None \<Rightarrow> s
      | Some d \<Rightarrow>
          let s1 = s\<lparr>destroyed := destroyed s @ [ref d]\<rparr>;
              s2 = s1\<lparr>index := (index s1)(display_id d := None)\<rparr>;
              ind = indexOf (displays s2) d;
              s3 = s2\<lparr>displays := splice1 ind (displays s2)\<rparr>;
              s4 = (if same_object (display s3) d
                    then (if displays s3 \<noteq> []
                          then s3\<lparr>display := Some (displays s3 ! 0)\<rparr>
                          else s3\<lparr>display := None\<rparr>)
                    else s3)
          in fire (DisplayDisconnect d) s4)"

text \<open>
  What the manager receives: the two window events, and the outcome of the initial
  enumeration started by the constructor (the list of displays, or WebVR is missing).
\<close>

datatype platform_event =
    VrDisplayConnect platform_display
  | VrDisplayDisconnect platform_display
  | GotDisplays "platform_display list"
  | NotSupported

fun handle :: "platform_event \<Rightarrow> VrManager \<Rightarrow> VrManager" where
  "handle (VrDisplayConnect v) s = onDisplayConnect v s"
| "handle (VrDisplayDisconnect v) s = onDisplayDisconnect v s"
| "handle (GotDisplays vs) s =
     (let s1 = foldl (\<lambda>t v. addDisplay v t) s vs in fire (Ready (displays s1)) s1)"
| "handle NotSupported s = fire Error s"

definition run :: "platform_event list \<Rightarrow> VrManager \<Rightarrow> VrManager" where
  "run evs s = foldl (\<lambda>t e. handle e t) s evs"


text \<open>
  The consistency of the three pieces of state that the handlers keep: every indexed
  wrapper is filed under its own identifier and is in the list, every listed wrapper is
  indexed, no object is listed twice, the allocator is ahead of every listed object, and
  the primary display is the head of the list.
\<close>

definition registry_ok :: "VrManager \<Rightarrow> bool" where
  "registry_ok s \<longleftrightarrow>
     (\<forall>k d. index s k = Some d \<longrightarrow> display_id d = k \<and> d \<in> set (displays s)) \<and>
     (\<forall>d \<in> set (displays s). index s (display_id d) = Some d) \<and>
     distinct (map ref (displays s)) \<and>
     (\<forall>d \<in> set (displays s). ref d < next_ref s) \<and>
     display s = (case displays s of [] \<Rightarrow> None | d # _ \<Rightarrow> Some d)"

section \<open>JavaScript numbers: binary64 arithmetic and the binary32 store\<close>

text \<open>
  The curve set computes its sample times in binary64 and keeps its samples in a
  \<open>Float32Array\<close>; the claims about it depend on both roundings, so its numbers are
  modelled with them. A JavaScript number is \<open>NaN\<close>, an infinity, or a finite real (one
  that the format represents, when it is the result of an operation below). The two zeros
  are identified: they compare equal in JavaScript, and the curve set never divides by a
  zero, the one operation that tells them apart.
\<close>

datatype js_number = NaN | NegInf | Fin real | PosInf

text \<open>The floor of the binary logarithm of a positive real, computed on integers.\<close>

function ilog2 :: "nat \<Rightarrow> nat" where
  "ilog2 n = (if n < 2 then 0 else Suc (ilog2 (n div 2)))"
  by pat_completeness auto
termination
  by (relation "measure (\<lambda>n. n)") auto

declare ilog2.simps [simp del]

definition floor_log2 :: "real \<Rightarrow> int" where
  "floor_log2 x =
     (if 1 \<le> x then int (ilog2 (nat \<lfloor>x\<rfloor>))
      else - int (Suc (ilog2 (nat \<lceil>1 / x\<rceil> - 1))))"

text \<open>The nearest integer, a tie going to the even neighbour.\<close>

definition rne :: "real \<Rightarrow> int" where
  "rne x =
     (let f = \<lfloor>x\<rfloor>; d = x - of_int f
      in if d < 1 / 2 then f
         else if 1 / 2 < d then f + 1
         else if even f then f else f + 1)"

definition pow2 :: "int \<Rightarrow> real" where
  "pow2 e = (if 0 \<le> e then 2 ^ nat e else 1 / 2 ^ nat (- e))"

text \<open>
  Rounding a real to a binary format with \<open>p\<close> significant bits and least normal exponent
  \<open>emin\<close>: the nearest multiple of the spacing \<open>2 ^ (e - p + 1)\<close>, where \<open>e\<close> is the
  exponent of the argument, or \<open>emin\<close> in the subnormal range; ties go to the even
  multiple. A rounded magnitude of \<open>2 ^ (emax + 1)\<close> or more overflows to the infinity of
  its sign.
\<close>

definition round_fin :: "nat \<Rightarrow> int \<Rightarrow> real \<Rightarrow> real" where
  "round_fin p emin x =
     (if x = 0 then 0
      else let e = max (floor_log2 \<bar>x\<bar>) emin - int p + 1
           in sgn x * (of_int (rne (\<bar>x\<bar> / pow2 e)) * pow2 e))"

definition to_format :: "nat \<Rightarrow> int \<Rightarrow> int \<Rightarrow> real \<Rightarrow> js_number" where
  "to_format p emin emax x =
     (let y = round_fin p emin x
      in if pow2 (emax + 1) \<le> \<bar>y\<bar> then (if 0 < x then PosInf else NegInf) else Fin y)"

text \<open>The result of an arithmetic operation: the exact result rounded to binary64.\<close>

definition fl64 :: "real \<Rightarrow> js_number" where
  "fl64 x = to_format 53 (- 1022) 1023 x"

text \<open>
  The store of a number into an element of a \<open>Float32Array\<close> (and \<open>Math.fround\<close>): the
  number rounded to binary32.
\<close>

fun fround :: "js_number \<Rightarrow> js_number" where
  "fround (Fin x) = to_format 24 (- 126) 127 x"
| "fround v = v"

text \<open>The comparison \<open>a <= b\<close>: false as soon as an operand is \<open>NaN\<close>.\<close>

fun js_le :: "js_number \<Rightarrow> js_number \<Rightarrow> bool" where
  "js_le NaN b = False"
| "js_le a NaN = False"
| "js_le NegInf b = True"
| "js_le a PosInf = True"
| "js_le (Fin x) (Fin y) = (x \<le> y)"
| "js_le a b = False"

text \<open>The infinity of a sign; a product or quotient without a sign is \<open>NaN\<close>.\<close>

definition inf_of :: "real \<Rightarrow> js_number" where
  "inf_of s = (if s = 0 then NaN else if 0 < s then PosInf else NegInf)"

fun num_sgn :: "js_number \<Rightarrow> real" where
  "num_sgn (Fin x) = sgn x"
| "num_sgn PosInf = 1"
| "num_sgn NegInf = - 1"
| "num_sgn NaN = 0"

text \<open>The operators \<open>*\<close> and \<open>/\<close>. A zero divisor is read as the positive zero.\<close>

fun js_mul :: "js_number \<Rightarrow> js_number \<Rightarrow> js_number" where
  "js_mul (Fin x) (Fin y) = fl64 (x * y)"
| "js_mul a b = (if a = NaN \<or> b = NaN then NaN else inf_of (num_sgn a * num_sgn b))"

fun js_div :: "js_number \<Rightarrow> js_number \<Rightarrow> js_number" where
  "js_div (Fin x) (Fin y) =
     (if y = 0 then inf_of (sgn x) else fl64 (x / y))"
| "js_div (Fin x) b = (if b = NaN then NaN else Fin 0)"
| "js_div a (Fin y) = (if a = NaN then NaN else inf_of (num_sgn a * (if y = 0 then 1 else sgn y)))"
| "js_div a b = NaN"

text \<open>\<open>Math.max\<close> and \<open>Math.min\<close> of two numbers: \<open>NaN\<close> as soon as an argument is.\<close>

definition Math_max :: "js_number \<Rightarrow> js_number \<Rightarrow> js_number" where
  "Math_max a b = (if a = NaN \<or> b = NaN then NaN else if js_le a b then b else a)"

definition Math_min :: "js_number \<Rightarrow> js_number \<Rightarrow> js_number" where
  "Math_min a b = (if a = NaN \<or> b = NaN then NaN else if js_le a b then a else b)"


section \<open>CurveSet: a collection of curves sampled together (curve-set)\<close>

text \<open>
  Times and values are JavaScript numbers as modelled above. Counts and indices are
  naturals, all below \<open>2 ^ 53\<close> where the code computes with them, so that their binary64
  arithmetic is exact; \<open>precision\<close> is an integer of any sign.

  Modelled from the spec: the classes \<open>Curve\<close> and \<open>CurveEvaluator\<close> are imported by the
  source and are not part of it. A curve "exposes \<open>value(time)\<close>"; the evaluator is a
  "stateful sampler": \<open>new CurveEvaluator(curve)\<close> builds its state and
  \<open>ev.evaluate(time)\<close> returns a number and moves the state. The three operations are
  parameters of the model.
\<close>

record ('c, 'e) curve_api =
  curve_value :: "'c \<Rightarrow> js_number \<Rightarrow> js_number"
  new_evaluator :: "'c \<Rightarrow> 'e"
  evaluate :: "'e \<Rightarrow> js_number \<Rightarrow> js_number \<times> 'e"

record 'c CurveSet =
  curves :: "'c list"
  curve_type :: nat

datatype js_error = TypeError | RangeError

datatype 'a js_value = Undefined | Defined 'a

text \<open>
  \<open>get(index)\<close> is the array read \<open>this.curves[index]\<close>: a JavaScript array read never
  throws, it yields \<open>undefined\<close> outside the array.
\<close>

definition CurveSet_get :: "'c CurveSet \<Rightarrow> int \<Rightarrow> js_error + 'c js_value" where
  "CurveSet_get cs i =
     (if 0 \<le> i \<and> i < int (length (curves cs))
      then Inr (Defined (curves cs ! nat i))
      else Inr Undefined)"

function value_loop ::
  "('c, 'e) curve_api \<Rightarrow> 'c list \<Rightarrow> js_number \<Rightarrow> nat \<Rightarrow> js_number list \<Rightarrow> js_number list" where
  "value_loop api cs time i result =
     (if i < length cs
      then value_loop api cs time (Suc i) (result[i := curve_value api (cs ! i) time])
      else result)"
  by pat_completeness auto
termination
  by (relation "measure (\<lambda>(api, cs, time, i, result). length cs - i)") auto

declare value_loop.simps [simp del]

text \<open>
  \<open>value(time)\<close> without an output buffer: a new array of \<open>length\<close> slots, all written. It
  is a plain array: its elements are the binary64 numbers that \<open>Curve.value\<close> returns.
\<close>

definition CurveSet_value ::
  "('c, 'e) curve_api \<Rightarrow> 'c CurveSet \<Rightarrow> js_number \<Rightarrow> js_number list" where
  "CurveSet_value api cs time =
     value_loop api (curves cs) time 0 (replicate (length (curves cs)) (Fin 0))"

text \<open>
  The inner loop of \<open>quantize\<close>: one evaluator, \<open>precision\<close> queries, column \<open>c\<close>. The
  query time is the binary64 product \<open>step * i\<close>; the answer is stored into the
  \<open>Float32Array\<close>, which rounds it to binary32.
\<close>

function sample_loop ::
  "('c, 'e) curve_api \<Rightarrow> js_number \<Rightarrow> nat \<Rightarrow> nat \<Rightarrow> nat \<Rightarrow> nat \<Rightarrow> 'e \<Rightarrow> js_number list
     \<Rightarrow> js_number list" where
  "sample_loop api step numCurves c precision i ev values =
     (if i < precision
      then (let res = evaluate api ev (js_mul step (Fin (real i)))
            in sample_loop api step numCurves c precision (Suc i) (snd res)
                 (values[i * numCurves + c := fround (fst res)]))
      else values)"
  by pat_completeness auto
termination
  by (relation "measure (\<lambda>(api, step, numCurves, c, precision, i, ev, values). precision - i)") auto

declare sample_loop.simps [simp del]

text \<open>The outer loop of \<open>quantize\<close>: a fresh evaluator for every curve.\<close>

function curve_loop ::
  "('c, 'e) curve_api \<Rightarrow> 'c list \<Rightarrow> js_number \<Rightarrow> nat \<Rightarrow> nat \<Rightarrow> js_number list
     \<Rightarrow> js_number list" where
  "curve_loop api cs step precision c values =
     (if c < length cs
      then curve_loop api cs step precision (Suc c)
             (sample_loop api step (length cs) c precision 0 (new_evaluator api (cs ! c)) values)
      else values)"
  by pat_completeness auto
termination
  by (relation "measure (\<lambda>(api, cs, step, precision, c, values). length cs - c)") auto

declare curve_loop.simps [simp del]

text \<open>
  \<open>new Float32Array(n)\<close> throws \<open>RangeError\<close> when \<open>n\<close> exceeds \<open>2 ^ 53 - 1\<close> or the
  greatest length the engine can allocate; the latter, \<open>max_length\<close>, is a parameter of
  the model.
\<close>

definition array_limit :: "nat \<Rightarrow> nat" where
  "array_limit max_length = min max_length (2 ^ 53 - 1)"

text \<open>
  \<open>quantize(precision)\<close>: the table is a \<open>Float32Array\<close> of zeros, filled column by
  column; \<open>step\<close> is the binary64 quotient \<open>1.0 / (precision - 1)\<close>.
\<close>

definition quantize ::
  "('c, 'e) curve_api \<Rightarrow> nat \<Rightarrow> 'c CurveSet \<Rightarrow> int \<Rightarrow> js_error + js_number list" where
  "quantize api max_length cs precision0 =
     (let precision = max precision0 2;
          numCurves = length (curves cs)
      in if array_limit max_length < nat precision * numCurves then Inl RangeError
         else
           let values = replicate (nat precision * numCurves) (Fin 0);
               step = js_div (Fin 1) (fl64 (real_of_int precision - 1))
           in Inr (curve_loop api (curves cs) step (nat precision) 0 values))"

text \<open>
  The loop of \<open>quantizeClamped\<close>: the clamped number is written back into the
  \<open>Float32Array\<close>, which rounds it to binary32.
\<close>

function clamp_loop ::
  "js_number \<Rightarrow> js_number \<Rightarrow> nat \<Rightarrow> js_number list \<Rightarrow> js_number list" where
  "clamp_loop lo hi i result =
     (if i < length result
      then clamp_loop lo hi (Suc i) (result[i := fround (Math_min hi (Math_max lo (result ! i)))])
      else result)"
  by pat_completeness auto
termination
  by (relation "measure (\<lambda>(lo, hi, i, result). length result - i)") auto

declare clamp_loop.simps [simp del]

definition quantizeClamped ::
  "('c, 'e) curve_api \<Rightarrow> nat \<Rightarrow> 'c CurveSet \<Rightarrow> int \<Rightarrow> js_number \<Rightarrow> js_number
     \<Rightarrow> js_error + js_number list" where
  "quantizeClamped api max_length cs precision lo hi =
     (case quantize api max_length cs precision of
        Inl e \<Rightarrow> Inl e
      | Inr result \<Rightarrow> Inr (clamp_loop lo hi 0 result))"

text \<open>The answers of one evaluator to a sequence of queries, its state threaded through.\<close>

fun ev_run :: "('c, 'e) curve_api \<Rightarrow> 'e \<Rightarrow> js_number list \<Rightarrow> js_number list" where
  "ev_run api ev [] = []"
| "ev_run api ev (t # ts) =
     (let res = evaluate api ev t in fst res # ev_run api (snd res) ts)"

text \<open>
  The contract the spec assumes of the evaluator: on query times that never decrease, a
  fresh evaluator answers what \<open>Curve.value\<close> answers.
\<close>

definition stateless_equivalent :: "('c, 'e) curve_api \<Rightarrow> bool" where
  "stateless_equivalent api \<longleftrightarrow>
     (\<forall>c ts. sorted_wrt js_le ts \<longrightarrow>
        ev_run api (new_evaluator api c) ts = map (curve_value api c) ts)"

text \<open>
  The spacing of the sample times for a requested precision, and the time of sample \<open>i\<close>:
  the expressions \<open>1.0 / (precision - 1)\<close> and \<open>step * i\<close> of \<open>quantize\<close>.
\<close>

definition sample_step :: "int \<Rightarrow> js_number" where
  "sample_step p = js_div (Fin 1) (fl64 (real_of_int (max p 2) - 1))"

definition sample_time :: "int \<Rightarrow> nat \<Rightarrow> js_number" where
  "sample_time p i = js_mul (sample_step p) (Fin (real i))"

text \<open>
  The table in the spec's words: for every sample index in turn, the values of all curves
  at that sample's time, each obtained from \<open>Curve.value\<close> on its own (one call of
  \<open>CurveSet.value\<close> per row), kept in a \<open>Float32Array\<close> of the same size.
\<close>

definition quantize_by_value ::
  "('c, 'e) curve_api \<Rightarrow> nat \<Rightarrow> 'c CurveSet \<Rightarrow> int \<Rightarrow> js_error + js_number list" where
  "quantize_by_value api max_length cs precision0 =
     (let precision = max precision0 2;
          numCurves = length (curves cs)
      in if array_limit max_length < nat precision * numCurves then Inl RangeError
         else
           let step = js_div (Fin 1) (fl64 (real_of_int precision - 1))
           in Inr (concat (map (\<lambda>i. map fround (CurveSet_value api cs (js_mul step (Fin (real i)))))
                            [0..<nat precision])))"

text \<open>The read \<open>table[k]\<close> of the table a call returned.\<close>

definition table_entry :: "js_error + js_number list \<Rightarrow> nat \<Rightarrow> js_error + js_number" where
  "table_entry outcome k = (case outcome of Inl e \<Rightarrow> Inl e | Inr t \<Rightarrow> Inr (t ! k))"

text \<open>
  Modelled from the spec: a curve is a list of "(time, value) keyframe pairs" with "a
  per-curve interpolation mode". The instance used to run the definitions is a curve that
  holds the value \<open>v0\<close> before time 1 and the value \<open>v1\<close> from time 1 on; its evaluator
  carries the curve and counts the queries it has answered.
\<close>

definition step_value :: "js_number \<times> js_number \<Rightarrow> js_number \<Rightarrow> js_number" where
  "step_value c t = (if js_le (Fin 1) t then snd c else fst c)"

definition step_api ::
  "(js_number \<times> js_number, (js_number \<times> js_number) \<times> nat) curve_api" where
  "step_api =
     \<lparr>curve_value = step_value,
      new_evaluator = (\<lambda>c. (c, 0)),
      evaluate = (\<lambda>ev t. (step_value (fst ev) t, (fst ev, Suc (snd ev))))\<rparr>"


section \<open>Color: RGBA value with hex string conversion (src/core/color.ts)\<close>

text \<open>
  The four channels are JavaScript numbers, modelled as reals: the theorems about colours
  are stated at inputs on which binary64 computes the same products and decides the same
  comparisons, and a quotient by 255 stands for its binary64 value. The fields are called
  \<open>r\<close>, \<open>g\<close>, \<open>b\<close>, \<open>a\<close> in the source.
\<close>

record Color =
  c_r :: real
  c_g :: real
  c_b :: real
  c_a :: real

text \<open>\<open>set(r, g, b, a)\<close> with all four arguments given, as \<open>fromString\<close> calls it.\<close>

definition Color_set :: "real \<Rightarrow> real \<Rightarrow> real \<Rightarrow> real \<Rightarrow> Color" where
  "Color_set vr vg vb va = \<lparr>c_r = vr, c_g = vg, c_b = vb, c_a = va\<rparr>"

text \<open>\<open>Math.round\<close>: the nearest integer, a tie going up.\<close>

definition Math_round :: "real \<Rightarrow> int" where
  "Math_round x = \<lfloor>x + 1 / 2\<rfloor>"

text \<open>The operands of the bitwise operators are first wrapped to signed 32 bits.\<close>

definition ToInt32 :: "int \<Rightarrow> int" where
  "ToInt32 n = (n + 2 ^ 31) mod 2 ^ 32 - 2 ^ 31"

definition shl :: "int \<Rightarrow> nat \<Rightarrow> int" where
  "shl n k = ToInt32 (ToInt32 n * 2 ^ (k mod 32))"

definition hex_char :: "nat \<Rightarrow> char" where
  "hex_char n = ''0123456789abcdef'' ! (n mod 16)"

function hex_nat :: "nat \<Rightarrow> string" where
  "hex_nat n = (if n < 16 then [hex_char n] else hex_nat (n div 16) @ [hex_char (n mod 16)])"
  by pat_completeness auto
termination
  by (relation "measure (\<lambda>n. n)") auto

declare hex_nat.simps [simp del]

text \<open>\<open>Number.prototype.toString(16)\<close> of an integral number.\<close>

definition toString16 :: "int \<Rightarrow> string" where
  "toString16 n = (if n < 0 then CHR ''-'' # hex_nat (nat (- n)) else hex_nat (nat n))"

definition Color_toString :: "Color \<Rightarrow> bool \<Rightarrow> string" where
  "Color_toString c alpha =
     (let s = ''#'' @ drop 1 (toString16 (shl 1 24 + shl (Math_round (c_r c * 255)) 16
                                + shl (Math_round (c_g c * 255)) 8 + Math_round (c_b c * 255)))
      in if alpha
         then (let a = toString16 (Math_round (c_a c * 255))
               in if c_a c < 16 / 255 then s @ ''0'' @ a else s @ a)
         else s)"

text \<open>\<open>hex.replace('#', '0x')\<close>: only the first occurrence is replaced.\<close>

fun replace_hash :: "string \<Rightarrow> string" where
  "replace_hash [] = []"
| "replace_hash (c # cs) = (if c = CHR ''#'' then ''0x'' @ cs else c # replace_hash cs)"

fun position :: "char \<Rightarrow> string \<Rightarrow> nat option" where
  "position c [] = None"
| "position c (x # xs) = (if c = x then Some 0 else map_option Suc (position c xs))"

definition digit_val :: "char \<Rightarrow> nat option" where
  "digit_val c =
     (case position c ''0123456789abcdef'' of
        Some n \<Rightarrow> Some n
      | None \<Rightarrow> position c ''0123456789ABCDEF'')"

text \<open>The digits of the longest prefix that is a hexadecimal numeral, most significant first.\<close>

fun hex_prefix :: "string \<Rightarrow> nat list" where
  "hex_prefix [] = []"
| "hex_prefix (c # cs) = (case digit_val c of None \<Rightarrow> [] | Some d \<Rightarrow> d # hex_prefix cs)"

definition strip_0x :: "string \<Rightarrow> string" where
  "strip_0x s =
     (case s of
        c0 # c1 # rest \<Rightarrow> if c0 = CHR ''0'' \<and> (c1 = CHR ''x'' \<or> c1 = CHR ''X'') then rest else s
      | _ \<Rightarrow> s)"

definition is_space :: "char \<Rightarrow> bool" where
  "is_space c \<longleftrightarrow> c \<in> set [CHR '' '', CHR 0x09, CHR 0x0A, CHR 0x0B, CHR 0x0C, CHR 0x0D]"

text \<open>
  \<open>parseInt(s, 16)\<close>: leading white space (here: of the ASCII range) and a sign are
  skipped, then an optional \<open>0x\<close>, then the longest run of hex digits is read; \<open>None\<close>
  stands for \<open>NaN\<close> (no digit). The result is exact for up to 13 digits, beyond which a
  binary64 number rounds.
\<close>

definition parseInt16 :: "string \<Rightarrow> int option" where
  "parseInt16 s0 =
     (let s1 = dropWhile is_space s0;
          neg = (case s1 of c # _ \<Rightarrow> c = CHR ''-'' | [] \<Rightarrow> False);
          s2 = (case s1 of c # rest \<Rightarrow> if c = CHR ''-'' \<or> c = CHR ''+'' then rest else s1 | [] \<Rightarrow> s1);
          ds = hex_prefix (strip_0x s2)
      in if ds = [] then None
         else let m = int (foldl (\<lambda>acc d. 16 * acc + d) 0 ds)
              in Some (if neg then - m else m))"

text \<open>
  Modelled from the spec: \<open>math.intToBytes32\<close> and \<open>math.intToBytes24\<close> belong to the
  module \<open>../math/math\<close>, which is not part of the sources. "Bytes are big-endian RGB(A)
  order": the most significant byte first. A \<open>NaN\<close> argument reads as 0, as every
  integer conversion of JavaScript does.
\<close>

definition intToBytes32 :: "int option \<Rightarrow> int list" where
  "intToBytes32 i =
     (let n = (case i of None \<Rightarrow> 0 | Some m \<Rightarrow> m)
      in [n div 2 ^ 24 mod 256, n div 2 ^ 16 mod 256, n div 2 ^ 8 mod 256, n mod 256])"

definition intToBytes24 :: "int option \<Rightarrow> int list" where
  "intToBytes24 i =
     (let n = (case i of None \<Rightarrow> 0 | Some m \<Rightarrow> m)
      in [n div 2 ^ 16 mod 256, n div 2 ^ 8 mod 256, n mod 256])"

definition Color_fromString :: "string \<Rightarrow> Color" where
  "Color_fromString hex =
     (let i = parseInt16 (replace_hash hex);
          bytes = (if length hex > 7 then intToBytes32 i else intToBytes24 i @ [255])
      in Color_set (real_of_int (bytes ! 0) / 255) (real_of_int (bytes ! 1) / 255)
           (real_of_int (bytes ! 2) / 255) (real_of_int (bytes ! 3) / 255))"


section \<open>Properties of the display registry\<close>

subsection \<open>The handlers keep the registry consistent\<close>

lemma ok_new: "registry_ok new_VrManager"
  by (simp add: registry_ok_def new_VrManager_def)

text \<open>
  In a list without repeated objects, \<open>indexOf\<close> finds the listed object and \<open>splice\<close>
  at that position removes exactly it.
\<close>

lemma indexOf_found:
  "d \<in> set xs \<Longrightarrow> distinct (map ref xs) \<Longrightarrow>
   \<exists>k < length xs. indexOf xs d = int k \<and> take k xs @ drop (Suc k) xs = remove1 d xs"
proof (induction xs)
  case Nil
  then show ?case by simp
next
  case (Cons x xs)
  show ?case
  proof (cases "x = d")
    case True
    then have "indexOf (x # xs) d = int 0 \<and> take 0 (x # xs) @ drop (Suc 0) (x # xs) = remove1 d (x # xs)"
      by simp
    then show ?thesis by blast
  next
    case False
    with Cons.prems have din: "d \<in> set xs" and dist: "distinct (map ref xs)" by auto
    from Cons.prems din have neq: "ref x \<noteq> ref d" by (auto simp: image_iff)
    from Cons.IH [OF din dist] obtain k where
      k: "k < length xs" "indexOf xs d = int k" "take k xs @ drop (Suc k) xs = remove1 d xs"
      by blast
    from k neq False
    have "Suc k < length (x # xs) \<and> indexOf (x # xs) d = int (Suc k) \<and>
          take (Suc k) (x # xs) @ drop (Suc (Suc k)) (x # xs) = remove1 d (x # xs)"
      by (simp add: Let_def)
    then show ?thesis by blast
  qed
qed

lemma splice1_indexOf:
  assumes "d \<in> set xs" "distinct (map ref xs)"
  shows "splice1 (indexOf xs d) xs = remove1 d xs"
proof -
  from indexOf_found [OF assms] obtain k where
    k: "k < length xs" "indexOf xs d = int k" "take k xs @ drop (Suc k) xs = remove1 d xs"
    by blast
  then show ?thesis by (simp add: splice1_def Let_def min_def)
qed

text \<open>The two handlers as plain state updates; both keep the registry consistent.\<close>

lemma addDisplay_known: "index s (displayId v) \<noteq> None \<Longrightarrow> addDisplay v s = s"
  by (simp add: addDisplay_def)

lemma addDisplay_fresh:
  "index s (displayId v) = None \<Longrightarrow>
   addDisplay v s =
     s\<lparr>next_ref := Suc (next_ref s),
       index := (index s)(displayId v \<mapsto> \<lparr>ref = next_ref s, display_id = displayId v\<rparr>),
       displays := displays s @ [\<lparr>ref = next_ref s, display_id = displayId v\<rparr>],
       display := (if display s = None then Some \<lparr>ref = next_ref s, display_id = displayId v\<rparr> else display s),
       fired := fired s @ [DisplayConnect \<lparr>ref = next_ref s, display_id = displayId v\<rparr>]\<rparr>"
  by (simp add: addDisplay_def new_VrDisplay_def fire_def Let_def)


lemma ok_addDisplay:
  assumes "registry_ok s"
  shows "registry_ok (addDisplay v s)"
proof (cases "index s (displayId v)")
  case (Some d)
  then show ?thesis using assms by (simp add: addDisplay_known)
next
  case None
  define d where "d = \<lparr>ref = next_ref s, display_id = displayId v\<rparr>"
  have i1: "\<And>k e. index s k = Some e \<Longrightarrow> display_id e = k \<and> e \<in> set (displays s)"
    and i2: "\<And>e. e \<in> set (displays s) \<Longrightarrow> index s (display_id e) = Some e"
    and i3: "distinct (map ref (displays s))"
    and i4: "\<And>e. e \<in> set (displays s) \<Longrightarrow> ref e < next_ref s"
    and i5: "display s = (case displays s of [] \<Rightarrow> None | e # _ \<Rightarrow> Some e)"
    using assms by (auto simp: registry_ok_def)
  have old_id: "\<And>e. e \<in> set (displays s) \<Longrightarrow> display_id e \<noteq> displayId v"
    using i2 None by fastforce
  have fresh_ref: "ref d \<notin> ref ` set (displays s)"
  proof
    assume "ref d \<in> ref ` set (displays s)"
    then obtain e where "e \<in> set (displays s)" "ref e = ref d" by auto
    with i4 [of e] show False by (simp add: d_def)
  qed
  have j1: "\<forall>k e. index (addDisplay v s) k = Some e \<longrightarrow>
              display_id e = k \<and> e \<in> set (displays (addDisplay v s))"
    using i1 by (auto simp: addDisplay_fresh [OF None] split: if_splits)
  have j2: "\<forall>e \<in> set (displays (addDisplay v s)). index (addDisplay v s) (display_id e) = Some e"
    using i2 old_id by (auto simp: addDisplay_fresh [OF None])
  have j3: "distinct (map ref (displays (addDisplay v s)))"
    using i3 fresh_ref by (simp add: addDisplay_fresh [OF None] d_def)
  have j4: "\<forall>e \<in> set (displays (addDisplay v s)). ref e < next_ref (addDisplay v s)"
    using i4 by (auto simp: addDisplay_fresh [OF None] less_Suc_eq)
  have j5: "display (addDisplay v s) =
              (case displays (addDisplay v s) of [] \<Rightarrow> None | e # _ \<Rightarrow> Some e)"
    using i5 by (cases "displays s") (simp_all add: addDisplay_fresh [OF None])
  from j1 j2 j3 j4 j5 show ?thesis unfolding registry_ok_def by blast
qed

lemma onDisplayDisconnect_unknown:
  "index s (displayId v) = None \<Longrightarrow> onDisplayDisconnect v s = s"
  by (simp add: onDisplayDisconnect_def)

lemma onDisplayDisconnect_known:
  assumes "registry_ok s" and "index s (displayId v) = Some d"
  shows "onDisplayDisconnect v s =
     s\<lparr>destroyed := destroyed s @ [ref d],
       index := (index s)(displayId v := None),
       displays := remove1 d (displays s),
       display := (case remove1 d (displays s) of [] \<Rightarrow> None | e # _ \<Rightarrow> Some e),
       fired := fired s @ [DisplayDisconnect d]\<rparr>"
proof -
  have i1: "display_id d = displayId v" "d \<in> set (displays s)"
    using assms by (auto simp: registry_ok_def)
  have i3: "distinct (map ref (displays s))"
    and i5: "display s = (case displays s of [] \<Rightarrow> None | e # _ \<Rightarrow> Some e)"
    using assms by (auto simp: registry_ok_def)
  have sp: "splice1 (indexOf (displays s) d) (displays s) = remove1 d (displays s)"
    using i1(2) i3 by (rule splice1_indexOf)
  obtain x xs where xs: "displays s = x # xs"
    using i1(2) by (cases "displays s") auto
  have prim: "display s = Some x" using i5 xs by simp
  show ?thesis
  proof (cases "x = d")
    case True
    then show ?thesis
      using assms(2) i1 sp xs prim
      by (cases xs) (simp_all add: onDisplayDisconnect_def Let_def fire_def same_object_def)
  next
    case False
    with i1(2) xs have "d \<in> set xs" by simp
    with i3 xs have "ref x \<noteq> ref d" by (auto simp: image_iff)
    then show ?thesis
      using assms(2) i1 sp xs prim False
      by (simp add: onDisplayDisconnect_def Let_def fire_def same_object_def)
  qed
qed


lemma ok_onDisplayDisconnect:
  assumes "registry_ok s"
  shows "registry_ok (onDisplayDisconnect v s)"
proof (cases "index s (displayId v)")
  case None
  then show ?thesis using assms by (simp add: onDisplayDisconnect_unknown)
next
  case (Some d)
  note eq = onDisplayDisconnect_known [OF assms Some]
  have i1: "\<And>k e. index s k = Some e \<Longrightarrow> display_id e = k \<and> e \<in> set (displays s)"
    and i2: "\<And>e. e \<in> set (displays s) \<Longrightarrow> index s (display_id e) = Some e"
    and i3: "distinct (map ref (displays s))"
    and i4: "\<And>e. e \<in> set (displays s) \<Longrightarrow> ref e < next_ref s"
    using assms by (auto simp: registry_ok_def)
  have dist: "distinct (displays s)" using i3 by (rule distinct_map [THEN iffD1, THEN conjunct1])
  have set_rm: "set (remove1 d (displays s)) = set (displays s) - {d}"
    using dist by simp
  have j1: "\<forall>k e. index (onDisplayDisconnect v s) k = Some e \<longrightarrow>
              display_id e = k \<and> e \<in> set (displays (onDisplayDisconnect v s))"
  proof (intro allI impI)
    fix k e assume "index (onDisplayDisconnect v s) k = Some e"
    then have k: "k \<noteq> displayId v" "index s k = Some e"
      by (auto simp: eq split: if_splits)
    with i1 [of k e] Some have "display_id e = k" "e \<in> set (displays s)" "e \<noteq> d"
      using i1 [of "displayId v" d] by auto
    then show "display_id e = k \<and> e \<in> set (displays (onDisplayDisconnect v s))"
      by (simp add: eq set_rm)
  qed
  have j2: "\<forall>e \<in> set (displays (onDisplayDisconnect v s)).
              index (onDisplayDisconnect v s) (display_id e) = Some e"
  proof
    fix e assume "e \<in> set (displays (onDisplayDisconnect v s))"
    then have e: "e \<in> set (displays s)" "e \<noteq> d" by (auto simp: eq set_rm)
    then have ie: "index s (display_id e) = Some e" using i2 by simp
    with e Some have "display_id e \<noteq> displayId v" by auto
    with ie show "index (onDisplayDisconnect v s) (display_id e) = Some e"
      by (simp add: eq)
  qed
  have j3: "distinct (map ref (displays (onDisplayDisconnect v s)))"
    using i3 by (simp add: eq distinct_map distinct_remove1 set_rm inj_on_diff)
  have j4: "\<forall>e \<in> set (displays (onDisplayDisconnect v s)). ref e < next_ref (onDisplayDisconnect v s)"
    using i4 by (simp add: eq set_rm)
  have j5: "display (onDisplayDisconnect v s) =
              (case displays (onDisplayDisconnect v s) of [] \<Rightarrow> None | e # _ \<Rightarrow> Some e)"
    by (simp add: eq)
  from j1 j2 j3 j4 j5 show ?thesis unfolding registry_ok_def by blast
qed

lemma ok_foldl_addDisplay: "registry_ok s \<Longrightarrow> registry_ok (foldl (\<lambda>t v. addDisplay v t) s vs)"
  by (induction vs arbitrary: s) (simp_all add: ok_addDisplay)

lemma ok_fire: "registry_ok s \<Longrightarrow> registry_ok (fire n s)"
  by (simp add: registry_ok_def fire_def)

lemma ok_handle: "registry_ok s \<Longrightarrow> registry_ok (handle e s)"
  by (cases e)
    (simp_all add: onDisplayConnect_def ok_addDisplay ok_onDisplayDisconnect
      ok_foldl_addDisplay ok_fire Let_def)

lemma ok_run: "registry_ok s \<Longrightarrow> registry_ok (run evs s)"
  unfolding run_def by (induction evs arbitrary: s) (simp_all add: ok_handle)


subsection \<open>Claims about the registry\<close>

lemmas vr_eval =
  run_def onDisplayConnect_def addDisplay_def new_VrDisplay_def fire_def new_VrManager_def
  onDisplayDisconnect_def splice1_def same_object_def Let_def

text \<open>
  Claim C1. Whatever events the manager has processed since its construction (connects,
  disconnects, the answer of the initial enumeration), the primary display is the first
  element of the display list when the list is not empty, and is null when it is empty.
\<close>

theorem primary_is_first:
  "display (run evs new_VrManager) =
     (case displays (run evs new_VrManager) of [] \<Rightarrow> None | d # _ \<Rightarrow> Some d)"
  using ok_run [OF ok_new, of evs] by (simp add: registry_ok_def)

text \<open>
  Two runs: two displays enumerated and the first one unplugged, where the second becomes
  primary; one display plugged and unplugged, where the registry is empty again.
\<close>

theorem primary_is_first_witness:
  "displays (run [GotDisplays [\<lparr>displayId = 10\<rparr>, \<lparr>displayId = 20\<rparr>],
                  VrDisplayDisconnect \<lparr>displayId = 10\<rparr>] new_VrManager)
     = [\<lparr>ref = 1, display_id = 20\<rparr>] \<and>
   display (run [GotDisplays [\<lparr>displayId = 10\<rparr>, \<lparr>displayId = 20\<rparr>],
                 VrDisplayDisconnect \<lparr>displayId = 10\<rparr>] new_VrManager)
     = Some \<lparr>ref = 1, display_id = 20\<rparr> \<and>
   displays (run [VrDisplayConnect \<lparr>displayId = 10\<rparr>,
                  VrDisplayDisconnect \<lparr>displayId = 10\<rparr>] new_VrManager) = [] \<and>
   display (run [VrDisplayConnect \<lparr>displayId = 10\<rparr>,
                 VrDisplayDisconnect \<lparr>displayId = 10\<rparr>] new_VrManager) = None"
proof -
  let ?e1 = "[GotDisplays [\<lparr>displayId = 10\<rparr>, \<lparr>displayId = 20\<rparr>],
              VrDisplayDisconnect \<lparr>displayId = 10\<rparr>]"
  let ?e2 = "[VrDisplayConnect \<lparr>displayId = 10\<rparr>, VrDisplayDisconnect \<lparr>displayId = 10\<rparr>]"
  have d1: "displays (run ?e1 new_VrManager) = [\<lparr>ref = 1, display_id = 20\<rparr>]"
    by (simp add: vr_eval)
  have d2: "displays (run ?e2 new_VrManager) = []"
    by (simp add: vr_eval)
  from primary_is_first [of ?e1] d1
  have p1: "display (run ?e1 new_VrManager) = Some \<lparr>ref = 1, display_id = 20\<rparr>" by simp
  from primary_is_first [of ?e2] d2
  have p2: "display (run ?e2 new_VrManager) = None" by simp
  from d1 p1 d2 p2 show ?thesis by blast
qed

text \<open>
  Claim C2. A connect event for an identifier that is already indexed changes nothing:
  the whole state is the same, in particular the index, the display list, the primary
  display and the notifications fired so far (no \<open>displayconnect\<close> is emitted).
\<close>

theorem double_connect_noop:
  "index s (displayId v) \<noteq> None \<Longrightarrow>
     onDisplayConnect v s = s \<and>
     index (onDisplayConnect v s) = index s \<and>
     displays (onDisplayConnect v s) = displays s \<and>
     display (onDisplayConnect v s) = display s \<and>
     fired (onDisplayConnect v s) = fired s"
  by (simp add: onDisplayConnect_def addDisplay_def)

theorem double_connect_noop_witness:
  "index (run [VrDisplayConnect \<lparr>displayId = 7\<rparr>] new_VrManager) 7 = Some \<lparr>ref = 0, display_id = 7\<rparr> \<and>
   onDisplayConnect \<lparr>displayId = 7\<rparr> (run [VrDisplayConnect \<lparr>displayId = 7\<rparr>] new_VrManager)
     = run [VrDisplayConnect \<lparr>displayId = 7\<rparr>] new_VrManager \<and>
   fired (onDisplayConnect \<lparr>displayId = 7\<rparr> (run [VrDisplayConnect \<lparr>displayId = 7\<rparr>] new_VrManager))
     = [DisplayConnect \<lparr>ref = 0, display_id = 7\<rparr>]"
proof -
  let ?s = "run [VrDisplayConnect \<lparr>displayId = 7\<rparr>] new_VrManager"
  have i: "index ?s 7 = Some \<lparr>ref = 0, display_id = 7\<rparr>" by (simp add: vr_eval)
  then have "index ?s (displayId \<lparr>displayId = 7\<rparr>) \<noteq> None" by simp
  from double_connect_noop [OF this]
  have n: "onDisplayConnect \<lparr>displayId = 7\<rparr> ?s = ?s" by blast
  have f: "fired ?s = [DisplayConnect \<lparr>ref = 0, display_id = 7\<rparr>]" by (simp add: vr_eval)
  from i n f show ?thesis by simp
qed

text \<open>
  Claim C3. A disconnect event for an identifier that is not indexed changes nothing, in
  any state (so no \<open>displaydisconnect\<close> is emitted). In every state the manager reaches
  from its construction, a disconnect event for an indexed identifier removes the indexed
  display from the index and from the display list, and fires \<open>displaydisconnect\<close> with
  that display.
\<close>

theorem disconnect_behaviour:
  "(index s (displayId v) = None \<longrightarrow> onDisplayDisconnect v s = s) \<and>
   (\<forall>d. index (run evs new_VrManager) (displayId v) = Some d \<longrightarrow>
      index (onDisplayDisconnect v (run evs new_VrManager))
        = (index (run evs new_VrManager))(displayId v := None) \<and>
      displays (onDisplayDisconnect v (run evs new_VrManager))
        = remove1 d (displays (run evs new_VrManager)) \<and>
      d \<in> set (displays (run evs new_VrManager)) \<and>
      d \<notin> set (displays (onDisplayDisconnect v (run evs new_VrManager))) \<and>
      fired (onDisplayDisconnect v (run evs new_VrManager))
        = fired (run evs new_VrManager) @ [DisplayDisconnect d])"
proof (intro conjI allI impI)
  assume "index s (displayId v) = None"
  then show "onDisplayDisconnect v s = s" by (rule onDisplayDisconnect_unknown)
next
  fix d
  let ?s = "run evs new_VrManager"
  assume known: "index ?s (displayId v) = Some d"
  have registry_ok: "registry_ok ?s" by (rule ok_run [OF ok_new])
  note eq = onDisplayDisconnect_known [OF registry_ok known]
  have "distinct (map ref (displays ?s))" using registry_ok by (simp add: registry_ok_def)
  then have dist: "distinct (displays ?s)" by (simp add: distinct_map)
  show "index (onDisplayDisconnect v ?s) = (index ?s)(displayId v := None)"
    by (simp add: eq)
  show "displays (onDisplayDisconnect v ?s) = remove1 d (displays ?s)"
    by (simp add: eq)
  show "d \<in> set (displays ?s)" using registry_ok known by (auto simp: registry_ok_def)
  show "d \<notin> set (displays (onDisplayDisconnect v ?s))" using dist by (simp add: eq)
  show "fired (onDisplayDisconnect v ?s) = fired ?s @ [DisplayDisconnect d]"
    by (simp add: eq)
qed

theorem disconnect_behaviour_witness:
  "index new_VrManager 5 = None \<and>
   onDisplayDisconnect \<lparr>displayId = 5\<rparr> new_VrManager = new_VrManager \<and>
   index (run [VrDisplayConnect \<lparr>displayId = 7\<rparr>, VrDisplayConnect \<lparr>displayId = 8\<rparr>] new_VrManager) 7
     = Some \<lparr>ref = 0, display_id = 7\<rparr> \<and>
   displays (onDisplayDisconnect \<lparr>displayId = 7\<rparr>
      (run [VrDisplayConnect \<lparr>displayId = 7\<rparr>, VrDisplayConnect \<lparr>displayId = 8\<rparr>] new_VrManager))
     = [\<lparr>ref = 1, display_id = 8\<rparr>] \<and>
   index (onDisplayDisconnect \<lparr>displayId = 7\<rparr>
      (run [VrDisplayConnect \<lparr>displayId = 7\<rparr>, VrDisplayConnect \<lparr>displayId = 8\<rparr>] new_VrManager)) 7
     = None \<and>
   fired (onDisplayDisconnect \<lparr>displayId = 7\<rparr>
      (run [VrDisplayConnect \<lparr>displayId = 7\<rparr>, VrDisplayConnect \<lparr>displayId = 8\<rparr>] new_VrManager))
     = [DisplayConnect \<lparr>ref = 0, display_id = 7\<rparr>, DisplayConnect \<lparr>ref = 1, display_id = 8\<rparr>,
        DisplayDisconnect \<lparr>ref = 0, display_id = 7\<rparr>]"
proof -
  let ?evs = "[VrDisplayConnect \<lparr>displayId = 7\<rparr>, VrDisplayConnect \<lparr>displayId = 8\<rparr>]"
  let ?s = "run ?evs new_VrManager"
  let ?d = "\<lparr>ref = 0, display_id = 7\<rparr>"
  have u: "index new_VrManager (displayId \<lparr>displayId = 5\<rparr>) = None"
    by (simp add: new_VrManager_def)
  have k: "index ?s (displayId \<lparr>displayId = 7\<rparr>) = Some ?d" by (simp add: vr_eval)
  have ds: "displays ?s = [?d, \<lparr>ref = 1, display_id = 8\<rparr>]" by (simp add: vr_eval)
  have fs: "fired ?s = [DisplayConnect ?d, DisplayConnect \<lparr>ref = 1, display_id = 8\<rparr>]"
    by (simp add: vr_eval)
  note th = disconnect_behaviour [where s = new_VrManager and v = "\<lparr>displayId = 5\<rparr>"]
  from th u have a: "onDisplayDisconnect \<lparr>displayId = 5\<rparr> new_VrManager = new_VrManager"
    by blast
  note th2 = disconnect_behaviour [where v = "\<lparr>displayId = 7\<rparr>" and evs = ?evs,
      THEN conjunct2, rule_format, OF k]
  from th2 ds have b: "displays (onDisplayDisconnect \<lparr>displayId = 7\<rparr> ?s) = [\<lparr>ref = 1, display_id = 8\<rparr>]"
    by simp
  from th2 have c: "index (onDisplayDisconnect \<lparr>displayId = 7\<rparr> ?s) 7 = None" by simp
  from th2 fs have d: "fired (onDisplayDisconnect \<lparr>displayId = 7\<rparr> ?s)
      = [DisplayConnect ?d, DisplayConnect \<lparr>ref = 1, display_id = 8\<rparr>, DisplayDisconnect ?d]"
    by simp
  from u k a b c d show ?thesis by simp
qed

text \<open>
  Claim C10. \<open>destroy()\<close> only removes the two window listeners: the index, the display
  list and the primary display are as before, no wrapper is destroyed and nothing is
  fired.
\<close>

theorem destroy_only_detaches:
  "destroy s = s\<lparr>attached := False\<rparr> \<and>
   index (destroy s) = index s \<and>
   displays (destroy s) = displays s \<and>
   display (destroy s) = display s \<and>
   destroyed (destroy s) = destroyed s \<and>
   fired (destroy s) = fired s \<and>
   attached (destroy s) = False"
  by (simp add: destroy_def detach_def)


section \<open>Properties of the number formats\<close>

lemmas num_eval = fl64_def to_format_def round_fin_def floor_log2_def rne_def ilog2.simps Let_def
  pow2_def

subsection \<open>Powers of two\<close>

lemma pow2_powi: "pow2 e = 2 powi e"
  by (simp add: pow2_def power_int_def field_simps)

lemma pow2_pos [simp]: "0 < pow2 e"
  by (simp add: pow2_def)

lemma pow2_nonneg [simp]: "0 \<le> pow2 e"
  by (simp add: pow2_def)

lemma pow2_nonzero [simp]: "pow2 e \<noteq> 0"
  by (simp add: pow2_def)

lemma pow2_add: "pow2 (a + b) = pow2 a * pow2 b"
  by (simp add: pow2_powi power_int_add)

lemma pow2_diff: "pow2 (a - b) = pow2 a / pow2 b"
  by (simp add: pow2_powi power_int_diff)

lemma pow2_mono: "a \<le> b \<Longrightarrow> pow2 a \<le> pow2 b"
  by (simp add: pow2_powi power_int_increasing)

lemma pow2_strict_mono: "a < b \<Longrightarrow> pow2 a < pow2 b"
  by (simp add: pow2_powi power_int_strict_increasing)

lemma pow2_less_imp: "pow2 a < pow2 b \<Longrightarrow> a < b"
  using pow2_mono [of b a] by (cases "a < b") auto

lemma pow2_nat: "pow2 (int n) = 2 ^ n"
  by (simp add: pow2_def)

lemma pow2_neg_nat: "pow2 (- int n) = 1 / 2 ^ n"
  by (simp add: pow2_powi power_int_minus field_simps)

lemma pow2_nonneg_int: "0 \<le> e \<Longrightarrow> pow2 e = of_int (2 ^ nat e)"
  by (simp add: pow2_def)

subsection \<open>The binary logarithm\<close>

lemma ilog2_bounds: "0 < n \<Longrightarrow> 2 ^ ilog2 n \<le> n \<and> n < 2 ^ Suc (ilog2 n)"
proof (induction n rule: ilog2.induct)
  case (1 n)
  show ?case
  proof (cases "n < 2")
    case True
    with "1.prems" have "n = 1" by simp
    then show ?thesis by (simp add: ilog2.simps)
  next
    case False
    then have pos: "0 < n div 2" by simp
    from "1.IH" [OF False pos]
    have lo: "2 ^ ilog2 (n div 2) \<le> n div 2" and hi: "n div 2 < 2 ^ Suc (ilog2 (n div 2))"
      by simp_all
    have eq: "ilog2 n = Suc (ilog2 (n div 2))" using False by (subst ilog2.simps) simp
    from lo have "2 * 2 ^ ilog2 (n div 2) \<le> n" by simp
    moreover from hi have "n < 2 * 2 ^ Suc (ilog2 (n div 2))" by simp
    ultimately show ?thesis by (simp add: eq)
  qed
qed

lemma floor_log2_bounds:
  assumes "0 < x"
  shows "pow2 (floor_log2 x) \<le> x" and "x < pow2 (floor_log2 x + 1)"
proof -
  have "pow2 (floor_log2 x) \<le> x \<and> x < pow2 (floor_log2 x + 1)"
  proof (cases "1 \<le> x")
    case True
    define n where "n = nat \<lfloor>x\<rfloor>"
    have n: "0 < n" "real n \<le> x" "x < real n + 1"
      using True by (simp_all add: n_def)
    from ilog2_bounds [OF n(1)]
    have b: "(2::nat) ^ ilog2 n \<le> n" "Suc n \<le> 2 ^ Suc (ilog2 n)" by simp_all
    have r1: "(2::real) ^ ilog2 n \<le> real n"
      using of_nat_mono [OF b(1), where 'a = real] by (simp only: of_nat_power of_nat_numeral)
    have r2: "1 + real n \<le> (2::real) ^ Suc (ilog2 n)"
      using of_nat_mono [OF b(2), where 'a = real]
      by (simp only: of_nat_power of_nat_numeral of_nat_Suc)
    have "2 ^ ilog2 n \<le> x" "x < 2 ^ Suc (ilog2 n)" using r1 r2 n(2,3) by linarith+
    moreover have "floor_log2 x = int (ilog2 n)" using True by (simp add: floor_log2_def n_def)
    moreover have "int (ilog2 n) + 1 = int (Suc (ilog2 n))" by simp
    ultimately show ?thesis by (simp only: pow2_nat)
  next
    case False
    define z where "z = 1 / x"
    define m where "m = nat \<lceil>z\<rceil>"
    define j where "j = ilog2 (m - 1)"
    have z: "1 < z" using False assms by (simp add: z_def)
    have m: "real m - 1 < z" "z \<le> real m" "2 \<le> m"
      using z by (simp add: m_def; linarith)+
    then have "0 < m - 1" by simp
    from ilog2_bounds [OF this]
    have b: "(2::nat) ^ j \<le> m - 1" "m \<le> 2 ^ Suc j" using m(3) by (auto simp: j_def)
    have s: "Suc (2 ^ j) \<le> m" using b(1) m(3) by simp
    have r1: "1 + (2::real) ^ j \<le> real m"
      using of_nat_mono [OF s, where 'a = real]
      by (simp only: of_nat_power of_nat_numeral of_nat_Suc)
    have r2: "real m \<le> (2::real) ^ Suc j"
      using of_nat_mono [OF b(2), where 'a = real] by (simp only: of_nat_power of_nat_numeral)
    have "2 ^ j < z" "z \<le> 2 ^ Suc j" using r1 r2 m(1,2) by linarith+
    then have "x < 1 / 2 ^ j" "1 / 2 ^ Suc j \<le> x"
      using assms by (simp_all add: z_def field_simps)
    moreover have fl: "floor_log2 x = - int (Suc j)"
      using False by (simp add: floor_log2_def j_def m_def z_def)
    moreover have "pow2 (- int (Suc j)) = 1 / 2 ^ Suc j" by (rule pow2_neg_nat)
    moreover have "- int (Suc j) + 1 = - int j" by simp
    then have "pow2 (- int (Suc j) + 1) = 1 / 2 ^ j" by (simp only: pow2_neg_nat)
    ultimately show ?thesis by simp
  qed
  then show "pow2 (floor_log2 x) \<le> x" and "x < pow2 (floor_log2 x + 1)" by simp_all
qed

lemma floor_log2_ge: "0 < x \<Longrightarrow> pow2 k \<le> x \<Longrightarrow> k \<le> floor_log2 x"
proof -
  assume "0 < x" "pow2 k \<le> x"
  then have "pow2 k < pow2 (floor_log2 x + 1)" using floor_log2_bounds(2) [of x] by simp
  then have "k < floor_log2 x + 1" by (rule pow2_less_imp)
  then show ?thesis by simp
qed

lemma floor_log2_less: "0 < x \<Longrightarrow> x < pow2 k \<Longrightarrow> floor_log2 x < k"
proof -
  assume "0 < x" "x < pow2 k"
  then have "pow2 (floor_log2 x) < pow2 k" using floor_log2_bounds(1) [of x] by simp
  then show ?thesis by (rule pow2_less_imp)
qed

lemma floor_log2_mono: "0 < x \<Longrightarrow> x \<le> y \<Longrightarrow> floor_log2 x \<le> floor_log2 y"
proof -
  assume a: "0 < x" "x \<le> y"
  then have "pow2 (floor_log2 x) \<le> y" using floor_log2_bounds(1) [of x] by simp
  with a show ?thesis by (intro floor_log2_ge) simp_all
qed

subsection \<open>Rounding to the nearest integer, ties to even\<close>

lemma rne_of_int [simp]: "rne (of_int k) = k"
  by (simp add: rne_def)

lemma rne_bounds: "of_int (rne x) \<le> x + 1 / 2" "x - 1 / 2 \<le> of_int (rne x)"
  by (simp_all add: rne_def Let_def) linarith+

lemma rne_between: "\<lfloor>x\<rfloor> \<le> rne x" "rne x \<le> \<lfloor>x\<rfloor> + 1"
  by (simp_all add: rne_def Let_def)

lemma rne_mono: "x \<le> y \<Longrightarrow> rne x \<le> rne y"
proof -
  assume le: "x \<le> y"
  show ?thesis
  proof (cases "\<lfloor>x\<rfloor> = \<lfloor>y\<rfloor>")
    case True
    then have "x - of_int \<lfloor>x\<rfloor> \<le> y - of_int \<lfloor>y\<rfloor>" using le by simp
    then show ?thesis using True by (auto simp: rne_def Let_def)
  next
    case False
    then have "\<lfloor>x\<rfloor> < \<lfloor>y\<rfloor>" using floor_mono [OF le] by simp
    then have "\<lfloor>x\<rfloor> + 1 \<le> \<lfloor>y\<rfloor>" by simp
    with rne_between(2) [of x] rne_between(1) [of y] show ?thesis by linarith
  qed
qed


subsection \<open>Rounding to a binary format\<close>

lemma round_fin_pos:
  assumes "0 < x"
  shows "round_fin p emin x =
           of_int (rne (x / pow2 (max (floor_log2 x) emin - int p + 1)))
             * pow2 (max (floor_log2 x) emin - int p + 1)"
  using assms by (simp add: round_fin_def Let_def)

lemma round_fin_minus: "round_fin p emin (- x) = - round_fin p emin x"
  by (simp add: round_fin_def Let_def sgn_minus)

lemma round_fin_zero [simp]: "round_fin p emin 0 = 0"
  by (simp add: round_fin_def)

lemma round_fin_nonneg: "0 \<le> x \<Longrightarrow> 0 \<le> round_fin p emin x"
proof (cases "x = 0")
  case True
  then show ?thesis by simp
next
  case False
  assume "0 \<le> x"
  with False have x: "0 < x" by simp
  have "0 \<le> x / pow2 (max (floor_log2 x) emin - int p + 1)" using x by simp
  then have "rne 0 \<le> rne (x / pow2 (max (floor_log2 x) emin - int p + 1))" by (rule rne_mono)
  then have "0 \<le> rne (x / pow2 (max (floor_log2 x) emin - int p + 1))"
    using rne_of_int [of 0] by simp
  then show ?thesis using x by (simp add: round_fin_pos)
qed

lemma scaled_upper:
  assumes "0 < x"
  shows "x / pow2 (max (floor_log2 x) emin - int p + 1) < pow2 (int p)"
proof -
  let ?e = "max (floor_log2 x) emin - int p + 1"
  have "x < pow2 (floor_log2 x + 1)" using assms by (rule floor_log2_bounds)
  also have "\<dots> \<le> pow2 (?e + int p)" by (rule pow2_mono) simp
  also have "\<dots> = pow2 ?e * pow2 (int p)" by (rule pow2_add)
  finally show ?thesis by (simp add: field_simps)
qed

lemma scaled_lower:
  assumes "0 < x" and "emin \<le> floor_log2 x"
  shows "pow2 (int p - 1) \<le> x / pow2 (max (floor_log2 x) emin - int p + 1)"
proof -
  let ?e = "max (floor_log2 x) emin - int p + 1"
  have e: "?e + (int p - 1) = floor_log2 x" using assms(2) by simp
  have "pow2 ?e * pow2 (int p - 1) = pow2 (floor_log2 x)"
    unfolding pow2_add [symmetric] e ..
  also have "\<dots> \<le> x" using assms(1) by (rule floor_log2_bounds)
  finally show ?thesis by (simp add: field_simps)
qed

lemma pow2_int_int: "0 \<le> e \<Longrightarrow> rne (pow2 e) = 2 ^ nat e"
  unfolding pow2_nonneg_int by (rule rne_of_int)

lemma pow2_rne_fixed: "0 \<le> e \<Longrightarrow> of_int (rne (pow2 e)) = pow2 e"
proof -
  assume e: "0 \<le> e"
  have "of_int (rne (of_int (2 ^ nat e))) = (of_int (2 ^ nat e) :: real)"
    by (simp only: rne_of_int)
  then show ?thesis unfolding pow2_nonneg_int [OF e] .
qed

lemma round_fin_mono_pos:
  assumes "0 < p" and "0 < x" and "x \<le> y"
  shows "round_fin p emin x \<le> round_fin p emin y"
proof -
  let ?ex = "max (floor_log2 x) emin - int p + 1"
  let ?ey = "max (floor_log2 y) emin - int p + 1"
  have y: "0 < y" using assms by simp
  have fl: "floor_log2 x \<le> floor_log2 y" using assms(2,3) by (rule floor_log2_mono)
  then have e: "?ex \<le> ?ey" by simp
  show ?thesis
  proof (cases "?ex = ?ey")
    case True
    have "x / pow2 ?ey \<le> y / pow2 ?ey" using assms(3) by (simp add: divide_right_mono)
    then have "rne (x / pow2 ?ey) \<le> rne (y / pow2 ?ey)" by (rule rne_mono)
    then have "of_int (rne (x / pow2 ?ey)) * pow2 ?ey \<le> of_int (rne (y / pow2 ?ey)) * pow2 ?ey"
      by (simp add: mult_right_mono)
    then show ?thesis using assms(2) y True by (simp add: round_fin_pos)
  next
    case False
    with e have lt: "?ex + 1 \<le> ?ey" by simp
    then have normal: "emin \<le> floor_log2 y" by (simp add: max_def split: if_splits)
    have "x / pow2 ?ex \<le> pow2 (int p)" using scaled_upper [OF assms(2), of emin p] by simp
    then have "rne (x / pow2 ?ex) \<le> rne (pow2 (int p))" by (rule rne_mono)
    then have "rne (x / pow2 ?ex) \<le> 2 ^ p" by (simp add: pow2_int_int)
    then have "(of_int (rne (x / pow2 ?ex)) :: real) \<le> of_int (2 ^ p)" by (simp only: of_int_le_iff)
    then have "of_int (rne (x / pow2 ?ex)) \<le> pow2 (int p)" by (simp add: pow2_nat)
    then have "of_int (rne (x / pow2 ?ex)) * pow2 ?ex \<le> pow2 (int p) * pow2 ?ex"
      by (simp add: mult_right_mono)
    also have "\<dots> = pow2 (int p + ?ex)" by (rule pow2_add [symmetric])
    also have "\<dots> \<le> pow2 (int p - 1 + ?ey)" using lt by (intro pow2_mono) simp
    also have "\<dots> = pow2 (int p - 1) * pow2 ?ey" by (rule pow2_add)
    also have "\<dots> \<le> of_int (rne (y / pow2 ?ey)) * pow2 ?ey"
    proof -
      have "pow2 (int p - 1) \<le> y / pow2 ?ey" using y normal by (rule scaled_lower)
      then have "rne (pow2 (int p - 1)) \<le> rne (y / pow2 ?ey)" by (rule rne_mono)
      moreover have "0 \<le> int p - 1" using assms(1) by simp
      ultimately have "2 ^ nat (int p - 1) \<le> rne (y / pow2 ?ey)" by (simp add: pow2_int_int)
      then have "(of_int (2 ^ nat (int p - 1)) :: real) \<le> of_int (rne (y / pow2 ?ey))"
        by (simp only: of_int_le_iff)
      then have "pow2 (int p - 1) \<le> of_int (rne (y / pow2 ?ey))"
        using \<open>0 \<le> int p - 1\<close> by (simp add: pow2_nonneg_int)
      then show ?thesis by (simp add: mult_right_mono)
    qed
    finally show ?thesis using assms(2) y by (simp add: round_fin_pos)
  qed
qed

lemma round_fin_mono:
  assumes "0 < p" and "x \<le> y"
  shows "round_fin p emin x \<le> round_fin p emin y"
proof -
  consider (pos) "0 < x" | (neg) "y < 0" | (mid) "x \<le> 0" "0 \<le> y" by linarith
  then show ?thesis
  proof cases
    case pos
    then show ?thesis using assms by (intro round_fin_mono_pos)
  next
    case neg
    then have "0 < - y" "- y \<le> - x" using assms(2) by simp_all
    then have "round_fin p emin (- y) \<le> round_fin p emin (- x)"
      using assms(1) by (intro round_fin_mono_pos)
    then show ?thesis by (simp add: round_fin_minus)
  next
    case mid
    have "0 \<le> round_fin p emin y" using mid(2) by (rule round_fin_nonneg)
    moreover have "0 \<le> round_fin p emin (- x)" using mid(1) by (intro round_fin_nonneg) simp
    ultimately show ?thesis by (simp add: round_fin_minus)
  qed
qed


lemma round_fin_fixes_pos:
  assumes "0 < p" and "emin - int p + 1 \<le> e" and "0 < k" and "k \<le> 2 ^ p"
  shows "round_fin p emin (of_int k * pow2 e) = of_int k * pow2 e"
proof -
  define y where "y = of_int k * pow2 e"
  let ?ey = "max (floor_log2 y) emin - int p + 1"
  have y: "0 < y" using assms(3) by (simp add: y_def)
  have "of_int (rne (y / pow2 ?ey)) * pow2 ?ey = y"
  proof (cases "?ey \<le> e")
    case True
    have "y / pow2 ?ey = of_int k * pow2 (e - ?ey)" by (simp add: y_def pow2_diff)
    also have "\<dots> = of_int (k * 2 ^ nat (e - ?ey))" using True by (simp add: pow2_nonneg_int)
    finally have "rne (y / pow2 ?ey) = k * 2 ^ nat (e - ?ey)" by (simp only: rne_of_int)
    then have "of_int (rne (y / pow2 ?ey)) * pow2 ?ey = of_int k * pow2 (e - ?ey) * pow2 ?ey"
      using True by (simp add: pow2_nonneg_int)
    also have "\<dots> = of_int k * pow2 (e - ?ey + ?ey)" by (simp only: pow2_add mult.assoc)
    finally show ?thesis by (simp add: y_def)
  next
    case False
    then have big: "e + int p \<le> floor_log2 y" using assms(2) by (simp add: max_def split: if_splits)
    have "pow2 (e + int p) \<le> pow2 (floor_log2 y)" using big by (rule pow2_mono)
    also have "\<dots> \<le> y" using y by (rule floor_log2_bounds)
    finally have "pow2 e * pow2 (int p) \<le> of_int k * pow2 e" by (simp add: pow2_add y_def)
    then have "pow2 (int p) \<le> of_int k" by simp
    then have "(of_int (2 ^ p) :: real) \<le> of_int k" by (simp add: pow2_nat)
    then have "2 ^ p \<le> k" by (simp only: of_int_le_iff)
    with assms(4) have k: "k = 2 ^ p" by simp
    then have yp: "y = pow2 (int p + e)" by (simp add: y_def pow2_add pow2_nat)
    have "int p + e \<le> floor_log2 y" using y yp by (intro floor_log2_ge) simp_all
    moreover have "y < pow2 (int p + e + 1)"
      unfolding yp by (rule pow2_strict_mono) simp
    then have "floor_log2 y < int p + e + 1" using y by (intro floor_log2_less)
    ultimately have fl: "floor_log2 y = int p + e" by simp
    have ey: "?ey = e + 1" using fl assms(2) by simp
    have "y / pow2 (e + 1) = pow2 (int p + e - (e + 1))" unfolding yp by (simp only: pow2_diff)
    also have "\<dots> = pow2 (int p - 1)" by simp
    finally have sc: "y / pow2 (e + 1) = pow2 (int p - 1)" .
    have p1: "0 \<le> int p - 1" using assms(1) by simp
    have "of_int (rne (y / pow2 (e + 1))) * pow2 (e + 1) = pow2 (int p - 1) * pow2 (e + 1)"
      unfolding sc pow2_rne_fixed [OF p1] ..
    also have "\<dots> = pow2 (int p - 1 + (e + 1))" by (rule pow2_add [symmetric])
    also have "\<dots> = y" unfolding yp by simp
    finally show ?thesis unfolding ey .
  qed
  then show ?thesis using y unfolding y_def [symmetric] by (simp add: round_fin_pos)
qed

lemma round_fin_fixes:
  assumes "0 < p" and "emin - int p + 1 \<le> e" and "\<bar>k\<bar> \<le> 2 ^ p"
  shows "round_fin p emin (of_int k * pow2 e) = of_int k * pow2 e"
proof -
  consider (pos) "0 < k" | (zero) "k = 0" | (neg) "k < 0" by linarith
  then show ?thesis
  proof cases
    case pos
    then show ?thesis using assms by (intro round_fin_fixes_pos) simp_all
  next
    case zero
    then show ?thesis by simp
  next
    case neg
    then have "round_fin p emin (of_int (- k) * pow2 e) = of_int (- k) * pow2 e"
      using assms by (intro round_fin_fixes_pos) simp_all
    then show ?thesis using round_fin_minus [of p emin "of_int k * pow2 e"] by simp
  qed
qed

lemma round_fin_shape_pos:
  assumes "0 < p" and "0 < x"
  shows "\<exists>k e. round_fin p emin x = of_int k * pow2 e \<and> emin - int p + 1 \<le> e \<and> \<bar>k\<bar> \<le> 2 ^ p"
proof -
  let ?e = "max (floor_log2 x) emin - int p + 1"
  let ?k = "rne (x / pow2 ?e)"
  have "x / pow2 ?e \<le> pow2 (int p)" using scaled_upper [OF assms(2), of emin p] by simp
  then have "?k \<le> rne (pow2 (int p))" by (rule rne_mono)
  then have up: "?k \<le> 2 ^ p" by (simp add: pow2_int_int)
  have "0 \<le> x / pow2 ?e" using assms(2) by simp
  then have "rne 0 \<le> ?k" by (rule rne_mono)
  then have lo: "0 \<le> ?k" using rne_of_int [of 0] by simp
  have "round_fin p emin x = of_int ?k * pow2 ?e" using assms(2) by (rule round_fin_pos)
  moreover have "emin - int p + 1 \<le> ?e" by simp
  moreover have "\<bar>?k\<bar> \<le> 2 ^ p" using up lo by simp
  ultimately show ?thesis by blast
qed

lemma round_fin_shape:
  assumes "0 < p"
  shows "\<exists>k e. round_fin p emin x = of_int k * pow2 e \<and> emin - int p + 1 \<le> e \<and> \<bar>k\<bar> \<le> 2 ^ p"
proof -
  consider (pos) "0 < x" | (zero) "x = 0" | (neg) "x < 0" by linarith
  then show ?thesis
  proof cases
    case pos
    with assms show ?thesis by (rule round_fin_shape_pos)
  next
    case zero
    have "round_fin p emin x = of_int 0 * pow2 (emin - int p + 1)" using zero by simp
    moreover have "\<bar>0::int\<bar> \<le> 2 ^ p" by simp
    ultimately show ?thesis by blast
  next
    case neg
    then have "0 < - x" by simp
    from round_fin_shape_pos [OF assms this, of emin] obtain k e where
      ke: "round_fin p emin (- x) = of_int k * pow2 e" "emin - int p + 1 \<le> e" "\<bar>k\<bar> \<le> 2 ^ p"
      by blast
    have "round_fin p emin x = of_int (- k) * pow2 e"
      using ke(1) round_fin_minus [of p emin x] by simp
    moreover have "\<bar>- k\<bar> \<le> 2 ^ p" using ke(3) by simp
    ultimately show ?thesis using ke(2) by blast
  qed
qed

lemma round_fin_idem:
  assumes "0 < p"
  shows "round_fin p emin (round_fin p emin x) = round_fin p emin x"
proof -
  from round_fin_shape [OF assms, of emin x] obtain k e where
    ke: "round_fin p emin x = of_int k * pow2 e" "emin - int p + 1 \<le> e" "\<bar>k\<bar> \<le> 2 ^ p"
    by blast
  show ?thesis unfolding ke(1) using assms ke(2,3) by (rule round_fin_fixes)
qed


subsection \<open>The two formats\<close>

lemma to_format_not_NaN [simp]: "to_format p emin emax x \<noteq> NaN"
  by (simp add: to_format_def Let_def)

lemma js_le_NegInf [simp]: "js_le NegInf b \<longleftrightarrow> b \<noteq> NaN"
  by (cases b) simp_all

lemma js_le_PosInf [simp]: "js_le a PosInf \<longleftrightarrow> a \<noteq> NaN"
  by (cases a) simp_all

lemma js_le_refl: "a \<noteq> NaN \<Longrightarrow> js_le a a"
  by (cases a) simp_all

lemma js_le_trans: "js_le a b \<Longrightarrow> js_le b c \<Longrightarrow> js_le a c"
  by (cases a; cases b; cases c) simp_all

lemma js_le_not_NaN: "js_le a b \<Longrightarrow> a \<noteq> NaN \<and> b \<noteq> NaN"
  by (cases a; cases b) simp_all

lemma to_format_mono:
  assumes "0 < p" and "x \<le> y"
  shows "js_le (to_format p emin emax x) (to_format p emin emax y)"
proof -
  define a where "a = round_fin p emin x"
  define b where "b = round_fin p emin y"
  define T where "T = pow2 (emax + 1)"
  have ab: "a \<le> b" unfolding a_def b_def using assms by (rule round_fin_mono)
  have T: "0 < T" by (simp add: T_def)
  have fx: "to_format p emin emax x = (if T \<le> \<bar>a\<bar> then (if 0 < x then PosInf else NegInf) else Fin a)"
    by (simp add: to_format_def a_def T_def Let_def)
  have fy: "to_format p emin emax y = (if T \<le> \<bar>b\<bar> then (if 0 < y then PosInf else NegInf) else Fin b)"
    by (simp add: to_format_def b_def T_def Let_def)
  have apos: "0 < x \<Longrightarrow> 0 \<le> a" unfolding a_def by (intro round_fin_nonneg) simp
  have bneg: "y \<le> 0 \<Longrightarrow> b \<le> 0"
  proof -
    assume "y \<le> 0"
    then have "0 \<le> round_fin p emin (- y)" by (intro round_fin_nonneg) simp
    then show "b \<le> 0" by (simp add: b_def round_fin_minus)
  qed
  show ?thesis
  proof (cases "T \<le> \<bar>a\<bar>")
    case True
    show ?thesis
    proof (cases "0 < x")
      case xpos: True
      with apos True have "T \<le> a" by simp
      with ab T have "T \<le> \<bar>b\<bar>" by simp
      moreover have "0 < y" using xpos assms(2) by simp
      ultimately show ?thesis using True xpos by (simp add: fx fy)
    next
      case False
      then have "to_format p emin emax x = NegInf" using True by (simp add: fx)
      then show ?thesis by simp
    qed
  next
    case small: False
    show ?thesis
    proof (cases "T \<le> \<bar>b\<bar>")
      case True
      show ?thesis
      proof (cases "0 < y")
        case True
        then have "to_format p emin emax y = PosInf" using \<open>T \<le> \<bar>b\<bar>\<close> by (simp add: fy)
        then show ?thesis by simp
      next
        case False
        then have "b \<le> 0" using bneg by simp
        with True have "b \<le> - T" by simp
        with ab have "a \<le> - T" by simp
        with T have "T \<le> \<bar>a\<bar>" by simp
        with small show ?thesis by simp
      qed
    next
      case False
      with small ab show ?thesis by (simp add: fx fy)
    qed
  qed
qed

lemma to_format_idem:
  assumes "0 < p" and "to_format p emin emax x = Fin y"
  shows "to_format p emin emax y = Fin y"
proof -
  have y: "y = round_fin p emin x" and small: "\<not> pow2 (emax + 1) \<le> \<bar>y\<bar>"
    using assms(2) by (auto simp: to_format_def Let_def split: if_splits)
  have "round_fin p emin y = y" unfolding y using assms(1) by (rule round_fin_idem)
  then show ?thesis using small by (simp add: to_format_def Let_def)
qed

lemma fround_idem: "fround (fround v) = fround v"
proof (cases v)
  case (Fin x)
  show ?thesis
  proof (cases "fround v")
    case (Fin y)
    then have "to_format 24 (- 126) 127 x = Fin y" using \<open>v = Fin x\<close> by simp
    then have "to_format 24 (- 126) 127 y = Fin y" by (intro to_format_idem) simp_all
    then show ?thesis using Fin by simp
  qed simp_all
qed simp_all

lemma fround_mono: "js_le a b \<Longrightarrow> js_le (fround a) (fround b)"
proof (cases a; cases b)
  fix x y assume "js_le a b" "a = Fin x" "b = Fin y"
  then show ?thesis by (simp add: to_format_mono)
qed simp_all

lemma fround_NaN_iff [simp]: "fround v = NaN \<longleftrightarrow> v = NaN"
  by (cases v) simp_all

lemma fl64_mono: "x \<le> y \<Longrightarrow> js_le (fl64 x) (fl64 y)"
  by (simp add: fl64_def to_format_mono)

lemma fl64_zero: "fl64 0 = Fin 0"
  by (simp add: num_eval)

lemma fl64_one: "fl64 1 = Fin 1"
  by (simp add: num_eval)

lemma fl64_not_NaN [simp]: "fl64 x \<noteq> NaN"
  by (simp add: fl64_def)

lemma fl64_unit:
  assumes "0 \<le> x" "x \<le> 1"
  shows "\<exists>s. 0 \<le> s \<and> s \<le> 1 \<and> fl64 x = Fin s"
proof -
  have lo: "js_le (Fin 0) (fl64 x)" using fl64_mono [OF assms(1)] by (simp add: fl64_zero)
  have hi: "js_le (fl64 x) (Fin 1)" using fl64_mono [OF assms(2)] by (simp add: fl64_one)
  show ?thesis using lo hi by (cases "fl64 x") simp_all
qed

lemma fl64_ge_one:
  assumes "1 \<le> x"
  shows "fl64 x = PosInf \<or> (\<exists>y. 1 \<le> y \<and> fl64 x = Fin y)"
proof -
  have "js_le (Fin 1) (fl64 x)" using fl64_mono [OF assms] by (simp add: fl64_one)
  then show ?thesis by (cases "fl64 x") simp_all
qed

lemma fl64_nonneg:
  assumes "0 \<le> x"
  shows "fl64 x = PosInf \<or> (\<exists>y. 0 \<le> y \<and> fl64 x = Fin y)"
proof -
  have "js_le (Fin 0) (fl64 x)" using fl64_mono [OF assms] by (simp add: fl64_zero)
  then show ?thesis by (cases "fl64 x") simp_all
qed


section \<open>Properties of the curve set\<close>

subsection \<open>What the loops compute\<close>

lemma replicate_numeral: "replicate (numeral k) x = x # replicate (pred_numeral k) x"
  by (simp add: numeral_eq_Suc)

lemmas curve_eval =
  quantize_def array_limit_def curve_loop.simps sample_loop.simps step_api_def step_value_def
  replicate_numeral num_eval


lemma value_loop_eq:
  "length result = length cs \<Longrightarrow> i \<le> length cs \<Longrightarrow>
   value_loop api cs time i result = take i result @ map (\<lambda>c. curve_value api c time) (drop i cs)"
proof (induction api cs time i result rule: value_loop.induct)
  case (1 api cs time i result)
  show ?case
  proof (cases "i < length cs")
    case True
    have "value_loop api cs time i result =
          value_loop api cs time (Suc i) (result[i := curve_value api (cs ! i) time])"
      using True by (subst value_loop.simps) simp
    also have "\<dots> = take (Suc i) (result[i := curve_value api (cs ! i) time])
                      @ map (\<lambda>c. curve_value api c time) (drop (Suc i) cs)"
      using True "1.prems" by (intro "1.IH") simp_all
    also have "take (Suc i) (result[i := curve_value api (cs ! i) time])
               = take i result @ [curve_value api (cs ! i) time]"
      using True "1.prems" by (simp add: take_Suc_conv_app_nth)
    also have "drop i cs = cs ! i # drop (Suc i) cs"
      using True by (simp add: Cons_nth_drop_Suc)
    then have "(take i result @ [curve_value api (cs ! i) time])
                 @ map (\<lambda>c. curve_value api c time) (drop (Suc i) cs)
               = take i result @ map (\<lambda>c. curve_value api c time) (drop i cs)"
      by simp
    finally show ?thesis .
  next
    case False
    with "1.prems" have "i = length cs" by simp
    then show ?thesis using "1.prems" by (subst value_loop.simps) simp
  qed
qed

lemma CurveSet_value_map:
  "CurveSet_value api cs time = map (\<lambda>c. curve_value api c time) (curves cs)"
  by (simp add: CurveSet_value_def value_loop_eq)

lemma sample_loop_length:
  "length (sample_loop api step n c p i ev values) = length values"
proof (induction api step n c p i ev "values" rule: sample_loop.induct)
  case (1 api step n c p i ev vals)
  show ?case
  proof (cases "i < p")
    case True
    then show ?thesis using "1.IH" [OF True refl]
      by (subst sample_loop.simps) (simp add: Let_def)
  next
    case False
    then show ?thesis by (subst sample_loop.simps) simp
  qed
qed

lemma cell_div_mod:
  fixes n c j :: nat
  assumes "c < n"
  shows "(j * n + c) div n = j" "(j * n + c) mod n = c"
  using assms by simp_all

lemma cell_unique:
  fixes n c m i :: nat
  assumes "c < n"
  shows "m = i * n + c \<longleftrightarrow> m mod n = c \<and> m div n = i"
proof
  assume "m = i * n + c"
  then show "m mod n = c \<and> m div n = i" using assms by simp
next
  assume h: "m mod n = c \<and> m div n = i"
  have "m = m div n * n + m mod n" by simp
  with h show "m = i * n + c" by simp
qed

lemma sample_loop_nth:
  assumes "c < n" and "m < length values"
  shows "sample_loop api step n c p i ev values ! m =
           (if m mod n = c \<and> i \<le> m div n \<and> m div n < p
            then fround (ev_run api ev (map (\<lambda>k. js_mul step (Fin (real k))) [i..<p]) ! (m div n - i))
            else values ! m)"
  using assms
proof (induction api step n c p i ev "values" rule: sample_loop.induct)
  case (1 api step n c p i ev vals)
  show ?case
  proof (cases "i < p")
    case False
    then have "\<not> (m mod n = c \<and> i \<le> m div n \<and> m div n < p)" by arith
    then have rhs: "(if m mod n = c \<and> i \<le> m div n \<and> m div n < p
            then fround (ev_run api ev (map (\<lambda>k. js_mul step (Fin (real k))) [i..<p]) ! (m div n - i))
            else vals ! m) = vals ! m"
      by (rule if_not_P)
    have "sample_loop api step n c p i ev vals = vals"
      using False by (subst sample_loop.simps) simp
    with rhs show ?thesis by simp
  next
    case True
    define res where "res = evaluate api ev (js_mul step (Fin (real i)))"
    define vals' where "vals' = vals[i * n + c := fround (fst res)]"
    have unfold: "sample_loop api step n c p i ev vals =
                  sample_loop api step n c p (Suc i) (snd res) vals'"
      using True by (subst sample_loop.simps) (simp add: Let_def res_def vals'_def)
    have IH: "sample_loop api step n c p (Suc i) (snd res) vals' ! m =
           (if m mod n = c \<and> Suc i \<le> m div n \<and> m div n < p
            then fround (ev_run api (snd res) (map (\<lambda>k. js_mul step (Fin (real k))) [Suc i..<p])
                           ! (m div n - Suc i))
            else vals' ! m)"
      using "1.IH" [OF True res_def [symmetric, THEN sym] "1.prems"(1)] "1.prems"(2)
      by (simp add: vals'_def res_def)
    have run: "ev_run api ev (map (\<lambda>k. js_mul step (Fin (real k))) [i..<p]) =
               fst res # ev_run api (snd res) (map (\<lambda>k. js_mul step (Fin (real k))) [Suc i..<p])"
      using True by (simp add: upt_conv_Cons Let_def res_def)
    show ?thesis
    proof (cases "m mod n = c \<and> m div n = i")
      case here: True
      then have "m = i * n + c" using cell_unique [OF "1.prems"(1)] by blast
      then have "vals' ! m = fround (fst res)" using "1.prems"(2) by (simp add: vals'_def)
      with here True show ?thesis by (simp add: unfold IH run)
    next
      case other: False
      then have ne: "m \<noteq> i * n + c" using cell_unique [OF "1.prems"(1)] by blast
      then have same: "vals' ! m = vals ! m" by (simp add: vals'_def)
      show ?thesis
      proof (cases "m mod n = c \<and> Suc i \<le> m div n \<and> m div n < p")
        case later: True
        then have "m div n - i = Suc (m div n - Suc i)" by arith
        with later show ?thesis by (simp add: unfold IH run)
      next
        case False
        have "\<not> (m mod n = c \<and> i \<le> m div n \<and> m div n < p)"
        proof
          assume h: "m mod n = c \<and> i \<le> m div n \<and> m div n < p"
          with other have "Suc i \<le> m div n" by arith
          with h False show False by blast
        qed
        then have rhs: "(if m mod n = c \<and> i \<le> m div n \<and> m div n < p
            then fround (ev_run api ev (map (\<lambda>k. js_mul step (Fin (real k))) [i..<p]) ! (m div n - i))
            else vals ! m) = vals ! m"
          by (rule if_not_P)
        have "sample_loop api step n c p i ev vals ! m = vals' ! m"
          unfolding unfold IH using False by (rule if_not_P)
        with same rhs show ?thesis by simp
      qed
    qed
  qed
qed

lemma curve_loop_length:
  "length (curve_loop api cs step p c vals) = length vals"
proof (induction api cs step p c vals rule: curve_loop.induct)
  case (1 api cs step p c vals)
  show ?case
  proof (cases "c < length cs")
    case True
    then show ?thesis using "1.IH" [OF True]
      by (subst curve_loop.simps) (simp add: sample_loop_length)
  next
    case False
    then show ?thesis by (subst curve_loop.simps) simp
  qed
qed

lemma curve_loop_nth:
  assumes "m < length vals" and "cs \<noteq> []"
  shows "curve_loop api cs step p c vals ! m =
           (if c \<le> m mod length cs \<and> m div length cs < p
            then fround (ev_run api (new_evaluator api (cs ! (m mod length cs)))
                   (map (\<lambda>k. js_mul step (Fin (real k))) [0..<p]) ! (m div length cs))
            else vals ! m)"
  using assms
proof (induction api cs step p c vals rule: curve_loop.induct)
  case (1 api cs step p c vals)
  show ?case
  proof (cases "c < length cs")
    case False
    have "m mod length cs < length cs" using "1.prems"(2) by simp
    with False have "\<not> (c \<le> m mod length cs \<and> m div length cs < p)" by simp
    then have rhs: "(if c \<le> m mod length cs \<and> m div length cs < p
            then fround (ev_run api (new_evaluator api (cs ! (m mod length cs)))
                   (map (\<lambda>k. js_mul step (Fin (real k))) [0..<p]) ! (m div length cs))
            else vals ! m) = vals ! m"
      by (rule if_not_P)
    have "curve_loop api cs step p c vals = vals"
      using False by (subst curve_loop.simps) simp
    with rhs show ?thesis by simp
  next
    case True
    define vals' where
      "vals' = sample_loop api step (length cs) c p 0 (new_evaluator api (cs ! c)) vals"
    have len: "m < length vals'" using "1.prems" by (simp add: vals'_def sample_loop_length)
    have unfold: "curve_loop api cs step p c vals = curve_loop api cs step p (Suc c) vals'"
      using True by (subst curve_loop.simps) (simp add: vals'_def)
    have IH: "curve_loop api cs step p (Suc c) vals' ! m =
           (if Suc c \<le> m mod length cs \<and> m div length cs < p
            then fround (ev_run api (new_evaluator api (cs ! (m mod length cs)))
                   (map (\<lambda>k. js_mul step (Fin (real k))) [0..<p]) ! (m div length cs))
            else vals' ! m)"
      using "1.IH" [OF True _ "1.prems"(2)] len by (simp add: vals'_def)
    have here: "vals' ! m =
           (if m mod length cs = c \<and> m div length cs < p
            then fround (ev_run api (new_evaluator api (cs ! c))
                   (map (\<lambda>k. js_mul step (Fin (real k))) [0..<p]) ! (m div length cs))
            else vals ! m)"
      using sample_loop_nth [OF True "1.prems"(1), of api step p 0 "new_evaluator api (cs ! c)"]
      by (simp add: vals'_def)
    show ?thesis
    proof (cases "m mod length cs = c")
      case True
      then show ?thesis by (simp add: unfold IH here)
    next
      case False
      then have "Suc c \<le> m mod length cs \<longleftrightarrow> c \<le> m mod length cs" by arith
      with False show ?thesis by (simp add: unfold IH here)
    qed
  qed
qed

lemma sample_step_fin: "\<exists>s. 0 \<le> s \<and> s \<le> 1 \<and> sample_step p = Fin s"
proof -
  have "1 \<le> real_of_int (max p 2) - 1" by (simp add: max_def)
  from fl64_ge_one [OF this] show ?thesis
  proof
    assume "fl64 (real_of_int (max p 2) - 1) = PosInf"
    then have "sample_step p = Fin 0" by (simp add: sample_step_def)
    then show ?thesis by simp
  next
    assume "\<exists>y. 1 \<le> y \<and> fl64 (real_of_int (max p 2) - 1) = Fin y"
    then obtain y where y: "1 \<le> y" "fl64 (real_of_int (max p 2) - 1) = Fin y" by blast
    then have "sample_step p = fl64 (1 / y)" by (simp add: sample_step_def)
    moreover have "0 \<le> 1 / y" "1 / y \<le> 1" using y(1) by simp_all
    ultimately show ?thesis using fl64_unit [of "1 / y"] by simp
  qed
qed

lemma sample_times_sorted:
  "sorted_wrt js_le (map (sample_time p) [i..<n])"
proof -
  obtain s where s: "0 \<le> s" "sample_step p = Fin s" using sample_step_fin [of p] by blast
  have "sorted_wrt (\<lambda>x y. js_le (sample_time p x) (sample_time p y)) [i..<n]"
  proof (rule sorted_wrt_mono_rel [of _ "(\<le>)"])
    fix x y :: nat assume "x \<le> y"
    then have "s * real x \<le> s * real y" using s(1) by (simp add: mult_left_mono)
    then show "js_le (sample_time p x) (sample_time p y)"
      by (simp add: sample_time_def s(2) fl64_mono)
  next
    show "sorted_wrt (\<le>) [i..<n]" by simp
  qed
  then show ?thesis by (simp add: sorted_wrt_map)
qed

lemma concat_rows_nth:
  assumes "\<forall>xs \<in> set xss. length xs = n" and "m < n * length xss"
  shows "concat xss ! m = xss ! (m div n) ! (m mod n)"
  using assms
proof (induction xss arbitrary: m)
  case Nil
  then show ?case by simp
next
  case (Cons xs xss)
  have n: "0 < n" using Cons.prems(2) by (cases n) simp_all
  have len: "length xs = n" using Cons.prems(1) by simp
  show ?case
  proof (cases "m < n")
    case True
    then show ?thesis using len by (simp add: nth_append)
  next
    case False
    then have ge: "n \<le> m" by simp
    have m': "m - n < n * length xss" using Cons.prems(2) ge by simp
    have IH: "concat xss ! (m - n) = xss ! ((m - n) div n) ! ((m - n) mod n)"
      using Cons.IH [OF _ m'] Cons.prems(1) by simp
    have d: "m div n = Suc ((m - n) div n)" using ge n by (simp add: le_div_geq)
    have r: "m mod n = (m - n) mod n" using ge by (simp add: le_mod_geq)
    show ?thesis using False len IH by (simp add: nth_append d r)
  qed
qed

lemma concat_rows_length:
  assumes "\<forall>xs \<in> set xss. length xs = n"
  shows "length (concat xss) = n * length xss"
  using assms by (induction xss) simp_all


lemma quantize_outcome:
  "quantize api L cs p =
     (if array_limit L < nat (max p 2) * length (curves cs) then Inl RangeError
      else Inr (curve_loop api (curves cs) (sample_step p) (nat (max p 2)) 0
                  (replicate (nat (max p 2) * length (curves cs)) (Fin 0))))"
  by (simp add: quantize_def sample_step_def Let_def)

lemma quantize_Inr_length:
  "quantize api L cs p = Inr t \<Longrightarrow> length t = nat (max p 2) * length (curves cs)"
  by (auto simp: quantize_outcome curve_loop_length split: if_splits)

lemma sample_time_fun: "(\<lambda>k. js_mul (sample_step p) (Fin (real k))) = sample_time p"
  by (simp add: sample_time_def fun_eq_iff)

lemma quantize_nth_ev:
  assumes "quantize api L cs p = Inr t" and "m < nat (max p 2) * length (curves cs)"
  shows "t ! m =
           fround (ev_run api (new_evaluator api (curves cs ! (m mod length (curves cs))))
             (map (sample_time p) [0..<nat (max p 2)]) ! (m div length (curves cs)))"
proof -
  have n: "0 < length (curves cs)" using assms(2) by (cases "length (curves cs)") simp_all
  have row: "m div length (curves cs) < nat (max p 2)"
    using assms(2) n by (simp add: less_mult_imp_div_less)
  have ne: "curves cs \<noteq> []" using n by simp
  have t: "t = curve_loop api (curves cs) (sample_step p) (nat (max p 2)) 0
                 (replicate (nat (max p 2) * length (curves cs)) (Fin 0))"
    using assms(1) by (auto simp: quantize_outcome split: if_splits)
  show ?thesis
    unfolding t using assms(2) row ne by (simp add: curve_loop_nth sample_time_fun)
qed

lemma quantize_cell_ev:
  assumes "quantize api L cs p = Inr t" and "i < nat (max p 2)" and "c < length (curves cs)"
  shows "t ! (i * length (curves cs) + c) =
           fround (ev_run api (new_evaluator api (curves cs ! c))
             (map (sample_time p) [0..<nat (max p 2)]) ! i)"
proof -
  let ?n = "length (curves cs)"
  have "i * ?n + c < i * ?n + ?n" using assms(3) by simp
  also have "\<dots> = Suc i * ?n" by simp
  also have "\<dots> \<le> nat (max p 2) * ?n" using assms(2) by (intro mult_le_mono1) simp
  finally have m: "i * ?n + c < nat (max p 2) * ?n" .
  show ?thesis
    using quantize_nth_ev [OF assms(1) m] by (simp only: cell_div_mod [OF assms(3)])
qed

lemma ev_run_stateless:
  assumes "stateless_equivalent api" and "j < n"
  shows "ev_run api (new_evaluator api c) (map (sample_time p) [0..<n]) ! j
         = curve_value api c (sample_time p j)"
proof -
  have "ev_run api (new_evaluator api c) (map (sample_time p) [0..<n])
        = map (curve_value api c) (map (sample_time p) [0..<n])"
    using assms(1) sample_times_sorted [of p 0 n] by (simp add: stateless_equivalent_def)
  then show ?thesis using assms(2) by simp
qed

lemma quantize_cell_value:
  assumes "stateless_equivalent api" and "quantize api L cs p = Inr t"
    and "i < nat (max p 2)" and "c < length (curves cs)"
  shows "t ! (i * length (curves cs) + c) = fround (curve_value api (curves cs ! c) (sample_time p i))"
  using quantize_cell_ev [OF assms(2,3,4)] ev_run_stateless [OF assms(1,3)] by simp

lemma quantize_by_value_outcome:
  "quantize_by_value api L cs p =
     (if array_limit L < nat (max p 2) * length (curves cs) then Inl RangeError
      else Inr (concat (map (\<lambda>i. map fround (CurveSet_value api cs (sample_time p i)))
                          [0..<nat (max p 2)])))"
  by (simp add: quantize_by_value_def sample_time_def sample_step_def Let_def)

lemma by_value_length:
  "length (concat (map (\<lambda>i. map fround (CurveSet_value api cs (sample_time p i))) [0..<k]))
   = k * length (curves cs)"
proof -
  have "length (concat (map (\<lambda>i. map fround (CurveSet_value api cs (sample_time p i))) [0..<k]))
        = length (curves cs) * length (map (\<lambda>i. map fround (CurveSet_value api cs (sample_time p i))) [0..<k])"
    by (rule concat_rows_length) (simp add: CurveSet_value_map)
  then show ?thesis by (simp add: mult.commute)
qed

lemma by_value_nth:
  assumes "m < k * length (curves cs)"
  shows "concat (map (\<lambda>i. map fround (CurveSet_value api cs (sample_time p i))) [0..<k]) ! m
         = fround (curve_value api (curves cs ! (m mod length (curves cs)))
                     (sample_time p (m div length (curves cs))))"
proof -
  let ?n = "length (curves cs)"
  let ?rows = "map (\<lambda>i. map fround (CurveSet_value api cs (sample_time p i))) [0..<k]"
  have n: "0 < ?n" using assms by (cases ?n) simp_all
  have row: "m div ?n < k" using assms n by (simp add: less_mult_imp_div_less)
  have col: "m mod ?n < ?n" using n by simp
  have "concat ?rows ! m = ?rows ! (m div ?n) ! (m mod ?n)"
    using assms by (intro concat_rows_nth) (simp_all add: CurveSet_value_map mult.commute)
  also have "\<dots> = fround (curve_value api (curves cs ! (m mod ?n)) (sample_time p (m div ?n)))"
    using row col by (simp add: CurveSet_value_map)
  finally show ?thesis .
qed

lemma quantize_eq_by_value:
  assumes "stateless_equivalent api"
  shows "quantize api L cs p = quantize_by_value api L cs p"
proof (cases "array_limit L < nat (max p 2) * length (curves cs)")
  case True
  then show ?thesis by (simp add: quantize_outcome quantize_by_value_outcome)
next
  case False
  let ?n = "length (curves cs)"
  let ?P = "nat (max p 2)"
  obtain t where t: "quantize api L cs p = Inr t" using False by (simp add: quantize_outcome)
  let ?r = "concat (map (\<lambda>i. map fround (CurveSet_value api cs (sample_time p i))) [0..<?P])"
  have r: "quantize_by_value api L cs p = Inr ?r"
    using False by (simp add: quantize_by_value_outcome)
  have "t = ?r"
  proof (rule nth_equalityI)
    show "length t = length ?r"
      using quantize_Inr_length [OF t] by (simp add: by_value_length)
  next
    fix m assume "m < length t"
    then have m: "m < ?P * ?n" using quantize_Inr_length [OF t] by simp
    have n: "0 < ?n" using m by (cases ?n) simp_all
    have row: "m div ?n < ?P" using m n by (simp add: less_mult_imp_div_less)
    show "t ! m = ?r ! m"
      using quantize_nth_ev [OF t m]
        ev_run_stateless [OF assms row, of "curves cs ! (m mod ?n)" p]
        by_value_nth [OF m, of api p]
      by simp
  qed
  with t r show ?thesis by simp
qed

lemma clamp_loop_eq:
  "i \<le> length result \<Longrightarrow>
   clamp_loop lo hi i result =
     take i result @ map (\<lambda>x. fround (Math_min hi (Math_max lo x))) (drop i result)"
proof (induction lo hi i result rule: clamp_loop.induct)
  case (1 lo hi i result)
  show ?case
  proof (cases "i < length result")
    case True
    let ?f = "\<lambda>x. fround (Math_min hi (Math_max lo x))"
    let ?r = "result[i := ?f (result ! i)]"
    have "clamp_loop lo hi i result = clamp_loop lo hi (Suc i) ?r"
      using True by (subst clamp_loop.simps) simp
    also have "\<dots> = take (Suc i) ?r @ map ?f (drop (Suc i) ?r)"
      using True by (intro "1.IH") simp_all
    also have "take (Suc i) ?r = take i result @ [?f (result ! i)]"
      using True by (simp add: take_Suc_conv_app_nth)
    also have "drop (Suc i) ?r = drop (Suc i) result" by simp
    also have "(take i result @ [?f (result ! i)]) @ map ?f (drop (Suc i) result)
               = take i result @ map ?f (drop i result)"
      using True by (simp add: Cons_nth_drop_Suc [symmetric])
    finally show ?thesis .
  next
    case False
    with "1.prems" have "i = length result" by simp
    then show ?thesis by (subst clamp_loop.simps) simp
  qed
qed

lemma quantizeClamped_outcome:
  "quantizeClamped api L cs p lo hi =
     (case quantize api L cs p of
        Inl e \<Rightarrow> Inl e
      | Inr t \<Rightarrow> Inr (map (\<lambda>x. fround (Math_min hi (Math_max lo x))) t))"
  by (simp add: quantizeClamped_def clamp_loop_eq split: sum.splits)

lemma js_le_antisym: "js_le a b \<Longrightarrow> js_le b a \<Longrightarrow> a = b"
  by (cases a; cases b) simp_all

lemma js_le_total: "a \<noteq> NaN \<Longrightarrow> b \<noteq> NaN \<Longrightarrow> js_le a b \<or> js_le b a"
  by (cases a; cases b) auto

lemma clamp_in_range:
  assumes "js_le lo hi" and "x \<noteq> NaN"
  shows "js_le lo (Math_min hi (Math_max lo x))" and "js_le (Math_min hi (Math_max lo x)) hi"
proof -
  have nn: "lo \<noteq> NaN" "hi \<noteq> NaN" using js_le_not_NaN [OF assms(1)] by simp_all
  define y where "y = Math_max lo x"
  have y: "y \<noteq> NaN" "js_le lo y"
    using nn assms(2) js_le_total [of lo x] by (auto simp: y_def Math_max_def js_le_refl)
  have "js_le lo (Math_min hi y) \<and> js_le (Math_min hi y) hi"
    using nn y assms(1) js_le_total [of hi y] by (auto simp: Math_min_def js_le_refl)
  then show "js_le lo (Math_min hi (Math_max lo x))" and "js_le (Math_min hi (Math_max lo x)) hi"
    by (simp_all add: y_def)
qed

lemma clamp_identity:
  assumes "js_le lo x" and "js_le x hi"
  shows "Math_min hi (Math_max lo x) = x"
proof -
  have nn: "lo \<noteq> NaN" "x \<noteq> NaN" "hi \<noteq> NaN"
    using js_le_not_NaN [OF assms(1)] js_le_not_NaN [OF assms(2)] by simp_all
  have "Math_max lo x = x" using nn assms(1) by (simp add: Math_max_def)
  moreover have "Math_min hi x = x"
    using nn assms(2) js_le_antisym [of hi x] by (auto simp: Math_min_def)
  ultimately show ?thesis by simp
qed

lemma quantize_entries_binary32:
  assumes "quantize api L cs p = Inr t" and "j < length t"
  shows "fround (t ! j) = t ! j"
proof -
  have "j < nat (max p 2) * length (curves cs)"
    using assms(2) quantize_Inr_length [OF assms(1)] by simp
  from quantize_nth_ev [OF assms(1) this] show ?thesis by (simp add: fround_idem)
qed

lemma step_api_run: "ev_run step_api (c, k) ts = map (step_value c) ts"
  by (induction ts arbitrary: k) (simp_all add: step_api_def Let_def)

lemma step_api_stateless: "stateless_equivalent step_api"
proof -
  have "\<And>c ts. ev_run step_api (new_evaluator step_api c) ts = map (curve_value step_api c) ts"
  proof -
    fix c :: "js_number \<times> js_number" and ts
    have "new_evaluator step_api c = (c, 0)" "curve_value step_api c = step_value c"
      by (simp_all add: step_api_def)
    then show "ev_run step_api (new_evaluator step_api c) ts = map (curve_value step_api c) ts"
      by (simp add: step_api_run)
  qed
  then show ?thesis by (simp add: stateless_equivalent_def)
qed

subsection \<open>Sample times and entries on concrete inputs\<close>

lemma quantize_entry:
  assumes "stateless_equivalent api"
    and "\<not> array_limit L < nat (max p 2) * length (curves cs)"
    and "i < nat (max p 2)" and "c < length (curves cs)"
  shows "table_entry (quantize api L cs p) (i * length (curves cs) + c)
         = Inr (fround (curve_value api (curves cs ! c) (sample_time p i)))"
proof -
  obtain t where t: "quantize api L cs p = Inr t" using assms(2) by (simp add: quantize_outcome)
  show ?thesis
    using quantize_cell_value [OF assms(1) t assms(3,4)] by (simp add: table_entry_def t)
qed

lemma fl64_tenth: "fl64 (1 / 10) = Fin (3602879701896397 / 36028797018963968)"
  by (simp add: num_eval)

lemma sample_time_2_1: "sample_time 2 1 = Fin 1"
  by (simp add: sample_time_def sample_step_def num_eval)

lemma sample_time_1_0: "sample_time 1 0 = Fin 0"
  by (simp add: sample_time_def sample_step_def num_eval)

lemma sample_time_3_2: "sample_time 3 2 = Fin 1"
  by (simp add: sample_time_def sample_step_def num_eval)

lemma sample_time_50_49: "sample_time 50 49 = Fin (9007199254740991 / 9007199254740992)"
  by (simp add: sample_time_def sample_step_def num_eval)

subsection \<open>Claims about the curve set\<close>

text \<open>
  Claim C4 says that entry \<open>i * curveCount + c\<close> is curve \<open>c\<close>'s value at time
  \<open>i * (1 / (precision - 1))\<close>, and that the last-row entry
  \<open>quantize(p)[(p - 1) * curveCount + c]\<close> equals \<open>curves[c].value(1)\<close>. Three calls on a
  step curve show where the code differs. The table is a \<open>Float32Array\<close>: when \<open>value(1)\<close>
  is the binary64 number 0.1, the last entry of \<open>quantize(2)\<close> is its binary32 rounding,
  a different number. The sample times are the binary64 products \<open>step * i\<close>: for precision
  50 the last one is \<open>1 - 2 ^ -53\<close>, not 1, so a curve that jumps from 0 to 100 at time 1 has
  the last entry 0. And for precision 1 the table has two rows, while the index
  \<open>(1 - 1) * curveCount + c\<close> addresses the first one, sampled at time 0.
\<close>

theorem quantize_table_counterexample:
  "table_entry (quantize step_api 1000 \<lparr>curves = [(Fin 0, fl64 (1 / 10))], curve_type = 1\<rparr> 2)
       ((2 - 1) * 1 + 0) = Inr (Fin (13421773 / 134217728)) \<and>
   curve_value step_api (Fin 0, fl64 (1 / 10)) (Fin 1) = Fin (3602879701896397 / 36028797018963968) \<and>
   table_entry (quantize step_api 1000 \<lparr>curves = [(Fin 0, fl64 (1 / 10))], curve_type = 1\<rparr> 2)
       ((2 - 1) * 1 + 0) \<noteq> Inr (curve_value step_api (Fin 0, fl64 (1 / 10)) (Fin 1)) \<and>
   sample_time 50 (50 - 1) = Fin (9007199254740991 / 9007199254740992) \<and>
   table_entry (quantize step_api 1000 \<lparr>curves = [(Fin 0, Fin 100)], curve_type = 1\<rparr> 50)
       ((50 - 1) * 1 + 0) = Inr (Fin 0) \<and>
   curve_value step_api (Fin 0, Fin 100) (Fin 1) = Fin 100 \<and>
   table_entry (quantize step_api 1000 \<lparr>curves = [(Fin 0, Fin 100)], curve_type = 1\<rparr> 1)
       ((1 - 1) * 1 + 0) = Inr (Fin 0)"
proof -
  let ?a = "\<lparr>curves = [(Fin 0, fl64 (1 / 10))], curve_type = 1\<rparr> :: (js_number \<times> js_number) CurveSet"
  let ?b = "\<lparr>curves = [(Fin 0, Fin 100)], curve_type = 1\<rparr> :: (js_number \<times> js_number) CurveSet"
  have lim: "\<not> array_limit 1000 < nat (max 2 2) * length (curves ?a)"
    "\<not> array_limit 1000 < nat (max 50 2) * length (curves ?b)"
    "\<not> array_limit 1000 < nat (max 1 2) * length (curves ?b)"
    by (simp_all add: array_limit_def)
  have "table_entry (quantize step_api 1000 ?a 2) (1 * length (curves ?a) + 0)
        = Inr (fround (curve_value step_api (curves ?a ! 0) (sample_time 2 1)))"
    by (rule quantize_entry [OF step_api_stateless lim(1)]) simp_all
  then have one: "table_entry (quantize step_api 1000 ?a 2) ((2 - 1) * 1 + 0)
        = Inr (Fin (13421773 / 134217728))"
    unfolding sample_time_2_1 by (simp add: step_api_def step_value_def num_eval)
  have two: "curve_value step_api (Fin 0, fl64 (1 / 10)) (Fin 1)
        = Fin (3602879701896397 / 36028797018963968)"
    by (simp add: step_api_def step_value_def fl64_tenth)
  have "table_entry (quantize step_api 1000 ?b 50) (49 * length (curves ?b) + 0)
        = Inr (fround (curve_value step_api (curves ?b ! 0) (sample_time 50 49)))"
    by (rule quantize_entry [OF step_api_stateless lim(2)]) simp_all
  then have three: "table_entry (quantize step_api 1000 ?b 50) ((50 - 1) * 1 + 0) = Inr (Fin 0)"
    unfolding sample_time_50_49 by (simp add: step_api_def step_value_def num_eval)
  have four: "curve_value step_api (Fin 0, Fin 100) (Fin 1) = Fin 100"
    by (simp add: step_api_def step_value_def)
  have "table_entry (quantize step_api 1000 ?b 1) (0 * length (curves ?b) + 0)
        = Inr (fround (curve_value step_api (curves ?b ! 0) (sample_time 1 0)))"
    by (rule quantize_entry [OF step_api_stateless lim(3)]) simp_all
  then have five: "table_entry (quantize step_api 1000 ?b 1) ((1 - 1) * 1 + 0) = Inr (Fin 0)"
    unfolding sample_time_1_0 by (simp add: step_api_def step_value_def num_eval)
  have six: "sample_time 50 (50 - 1) = Fin (9007199254740991 / 9007199254740992)"
    using sample_time_50_49 by simp
  have ne: "table_entry (quantize step_api 1000 ?a 2) ((2 - 1) * 1 + 0)
        \<noteq> Inr (curve_value step_api (Fin 0, fl64 (1 / 10)) (Fin 1))"
    unfolding one two by simp
  from one two ne six three four five show ?thesis by blast
qed

text \<open>
  Claim C4, as the code has it. \<open>quantize(precision)\<close> throws \<open>RangeError\<close> exactly when
  a table of \<open>max(precision, 2) * curveCount\<close> entries exceeds the array limit, and
  \<open>quantize(1)\<close> and \<open>quantize(2)\<close> have the same outcome. A table it returns has
  \<open>max(precision, 2) * curveCount\<close> entries; entry \<open>i * curveCount + c\<close> is the binary32
  rounding of the \<open>i\<close>-th answer of curve \<open>c\<close>'s evaluator to the queries
  \<open>step * 0, step * 1, ...\<close>, which for a stateless-equivalent evaluator is the binary32
  rounding of curve \<open>c\<close>'s value at the binary64 product \<open>step * i\<close>; and when the last
  sample time is exactly 1, the entries of the last row, row \<open>max(precision, 2) - 1\<close>, are
  the binary32 roundings of the curves' values at 1.
\<close>

theorem quantize_table:
  "(quantize api L cs p = Inl RangeError \<longleftrightarrow>
      array_limit L < nat (max p 2) * length (curves cs)) \<and>
   quantize api L cs 1 = quantize api L cs 2 \<and>
   (\<forall>t. quantize api L cs p = Inr t \<longrightarrow>
      length t = nat (max p 2) * length (curves cs) \<and>
      (\<forall>i c. i < nat (max p 2) \<and> c < length (curves cs) \<longrightarrow>
         t ! (i * length (curves cs) + c) =
           fround (ev_run api (new_evaluator api (curves cs ! c))
                     (map (sample_time p) [0..<nat (max p 2)]) ! i)) \<and>
      (stateless_equivalent api \<longrightarrow>
         (\<forall>i c. i < nat (max p 2) \<and> c < length (curves cs) \<longrightarrow>
            t ! (i * length (curves cs) + c) =
              fround (curve_value api (curves cs ! c) (sample_time p i))) \<and>
         (sample_time p (nat (max p 2) - 1) = Fin 1 \<longrightarrow>
            (\<forall>c. c < length (curves cs) \<longrightarrow>
               t ! ((nat (max p 2) - 1) * length (curves cs) + c) =
                 fround (curve_value api (curves cs ! c) (Fin 1))))))"
proof (intro conjI allI impI)
  show "quantize api L cs p = Inl RangeError \<longleftrightarrow>
          array_limit L < nat (max p 2) * length (curves cs)"
    by (simp add: quantize_outcome)
next
  show "quantize api L cs 1 = quantize api L cs 2" by (simp add: quantize_def)
next
  fix t assume "quantize api L cs p = Inr t"
  then show "length t = nat (max p 2) * length (curves cs)" by (rule quantize_Inr_length)
next
  fix t i c
  assume "quantize api L cs p = Inr t" and "i < nat (max p 2) \<and> c < length (curves cs)"
  then show "t ! (i * length (curves cs) + c) =
           fround (ev_run api (new_evaluator api (curves cs ! c))
                     (map (sample_time p) [0..<nat (max p 2)]) ! i)"
    by (simp add: quantize_cell_ev)
next
  fix t i c
  assume "quantize api L cs p = Inr t" and "stateless_equivalent api"
    and "i < nat (max p 2) \<and> c < length (curves cs)"
  then show "t ! (i * length (curves cs) + c) =
              fround (curve_value api (curves cs ! c) (sample_time p i))"
    by (simp add: quantize_cell_value)
next
  fix t c
  assume t: "quantize api L cs p = Inr t" and st: "stateless_equivalent api"
    and one: "sample_time p (nat (max p 2) - 1) = Fin 1" and c: "c < length (curves cs)"
  have "nat (max p 2) - 1 < nat (max p 2)" by simp
  from quantize_cell_value [OF st t this c] one
  show "t ! ((nat (max p 2) - 1) * length (curves cs) + c) =
                 fround (curve_value api (curves cs ! c) (Fin 1))"
    by simp
qed

text \<open>Two step curves, three samples: the last sample time is 1.\<close>

theorem quantize_table_witness:
  "quantize step_api 1000 \<lparr>curves = [(Fin 0, Fin 3), (Fin (3 / 2), Fin (3 / 2))], curve_type = 1\<rparr> 3
     = Inr [Fin 0, Fin (3 / 2), Fin 0, Fin (3 / 2), Fin 3, Fin (3 / 2)] \<and>
   stateless_equivalent step_api \<and>
   sample_time 3 (nat (max 3 2) - 1) = Fin 1 \<and>
   length [Fin 0, Fin (3 / 2), Fin 0, Fin (3 / 2), Fin 3, Fin (3 / 2)] = nat (max 3 2) * 2 \<and>
   [Fin 0, Fin (3 / 2), Fin 0, Fin (3 / 2), Fin 3, Fin (3 / 2)] ! ((nat (max 3 2) - 1) * 2 + 0)
     = fround (curve_value step_api (Fin 0, Fin 3) (Fin 1)) \<and>
   [Fin 0, Fin (3 / 2), Fin 0, Fin (3 / 2), Fin 3, Fin (3 / 2)] ! (1 * 2 + 1)
     = fround (curve_value step_api (Fin (3 / 2), Fin (3 / 2)) (sample_time 3 1)) \<and>
   quantize step_api 5 \<lparr>curves = [(Fin 0, Fin 3), (Fin (3 / 2), Fin (3 / 2))], curve_type = 1\<rparr> 3
     = Inl RangeError"
proof -
  let ?cs = "\<lparr>curves = [(Fin 0, Fin 3), (Fin (3 / 2), Fin (3 / 2))], curve_type = 1\<rparr>
               :: (js_number \<times> js_number) CurveSet"
  let ?t = "[Fin 0, Fin (3 / 2), Fin 0, Fin (3 / 2), Fin 3, Fin (3 / 2)]"
  have q: "quantize step_api 1000 ?cs 3 = Inr ?t" by (simp add: curve_eval)
  have s: "sample_time 3 (nat (max 3 2) - 1) = Fin 1" by (simp add: sample_time_3_2)
  note th = quantize_table [of step_api 1000 ?cs 3]
  from th q have len: "length ?t = nat (max 3 2) * length (curves ?cs)" by blast
  from th q step_api_stateless s
  have last: "\<forall>c. c < length (curves ?cs) \<longrightarrow>
      ?t ! ((nat (max 3 2) - 1) * length (curves ?cs) + c)
        = fround (curve_value step_api (curves ?cs ! c) (Fin 1))"
    by blast
  from th q step_api_stateless
  have cells: "\<forall>i c. i < nat (max 3 2) \<and> c < length (curves ?cs) \<longrightarrow>
      ?t ! (i * length (curves ?cs) + c)
        = fround (curve_value step_api (curves ?cs ! c) (sample_time 3 i))"
    by blast
  have a: "?t ! ((nat (max 3 2) - 1) * 2 + 0) = fround (curve_value step_api (Fin 0, Fin 3) (Fin 1))"
    using last [rule_format, of 0] by simp
  have b: "?t ! (1 * 2 + 1)
      = fround (curve_value step_api (Fin (3 / 2), Fin (3 / 2)) (sample_time 3 1))"
    using cells [rule_format, of 1 1] by simp
  have "array_limit 5 < nat (max 3 2) * length (curves ?cs)" by (simp add: array_limit_def)
  with quantize_table [of step_api 5 ?cs 3]
  have e: "quantize step_api 5 ?cs 3 = Inl RangeError" by blast
  from len have len': "length ?t = nat (max 3 2) * 2" by simp
  from q step_api_stateless s len' a b e show ?thesis by blast
qed

text \<open>
  Claim C5. If the evaluator is stateless-equivalent on monotonic queries, \<open>quantize\<close> (one
  stateful evaluator per curve) has the same outcome, the same table entry for entry, as
  the table of independent \<open>Curve.value\<close> calls at the same sample times; both tables are
  \<open>Float32Array\<close>s, so both hold the binary32 roundings of the values.
\<close>

theorem quantize_refines_value:
  "stateless_equivalent api \<Longrightarrow> quantize api L cs p = quantize_by_value api L cs p"
  by (rule quantize_eq_by_value)

text \<open>A curve whose value at 1 is the binary64 number 0.1: both tables hold its rounding.\<close>

theorem quantize_refines_value_witness:
  "stateless_equivalent step_api \<and>
   quantize step_api 1000 \<lparr>curves = [(Fin 0, fl64 (1 / 10)), (Fin 7, Fin 7)], curve_type = 1\<rparr> 2
     = Inr [Fin 0, Fin 7, Fin (13421773 / 134217728), Fin 7] \<and>
   quantize_by_value step_api 1000
       \<lparr>curves = [(Fin 0, fl64 (1 / 10)), (Fin 7, Fin 7)], curve_type = 1\<rparr> 2
     = Inr [Fin 0, Fin 7, Fin (13421773 / 134217728), Fin 7]"
proof -
  let ?cs = "\<lparr>curves = [(Fin 0, fl64 (1 / 10)), (Fin 7, Fin 7)], curve_type = 1\<rparr>
               :: (js_number \<times> js_number) CurveSet"
  have q: "quantize step_api 1000 ?cs 2 = Inr [Fin 0, Fin 7, Fin (13421773 / 134217728), Fin 7]"
    by (simp add: curve_eval)
  from quantize_refines_value [OF step_api_stateless, of 1000 ?cs 2] q step_api_stateless
  show ?thesis by simp
qed

text \<open>
  Claim C6 says that every entry of the result of \<open>quantizeClamped(p, min, max)\<close> lies in
  \<open>[min, max]\<close>. The clamped number is written back into the \<open>Float32Array\<close>, which rounds
  it to binary32: with \<open>min = 0\<close>, \<open>max = 0.1\<close> (a binary64 number) and a curve of constant
  value 3, every entry is the binary32 rounding of 0.1, which is greater than 0.1. And an
  entry that is \<open>NaN\<close> stays \<open>NaN\<close>, which lies in no interval.
\<close>

theorem quantizeClamped_range_counterexample:
  "js_le (Fin 0) (fl64 (1 / 10)) \<and>
   quantize step_api 1000 \<lparr>curves = [(Fin 3, Fin 3)], curve_type = 1\<rparr> 2 = Inr [Fin 3, Fin 3] \<and>
   quantizeClamped step_api 1000 \<lparr>curves = [(Fin 3, Fin 3)], curve_type = 1\<rparr> 2
       (Fin 0) (fl64 (1 / 10))
     = Inr [Fin (13421773 / 134217728), Fin (13421773 / 134217728)] \<and>
   \<not> js_le (Fin (13421773 / 134217728)) (fl64 (1 / 10)) \<and>
   quantizeClamped step_api 1000 \<lparr>curves = [(NaN, NaN)], curve_type = 1\<rparr> 2 (Fin 0) (Fin 1)
     = Inr [NaN, NaN] \<and>
   \<not> js_le (Fin 0) NaN \<and> \<not> js_le NaN (Fin 1)"
proof -
  let ?a = "\<lparr>curves = [(Fin 3, Fin 3)], curve_type = 1\<rparr> :: (js_number \<times> js_number) CurveSet"
  let ?b = "\<lparr>curves = [(NaN, NaN)], curve_type = 1\<rparr> :: (js_number \<times> js_number) CurveSet"
  have le: "js_le (Fin 0) (fl64 (1 / 10))" by (simp add: fl64_tenth)
  have q: "quantize step_api 1000 ?a 2 = Inr [Fin 3, Fin 3]" by (simp add: curve_eval)
  have c: "quantizeClamped step_api 1000 ?a 2 (Fin 0) (fl64 (1 / 10))
           = Inr [Fin (13421773 / 134217728), Fin (13421773 / 134217728)]"
    unfolding quantizeClamped_outcome q by (simp add: Math_min_def Math_max_def num_eval)
  have n: "\<not> js_le (Fin (13421773 / 134217728)) (fl64 (1 / 10))" by (simp add: fl64_tenth)
  have qn: "quantize step_api 1000 ?b 2 = Inr [NaN, NaN]" by (simp add: curve_eval)
  have cn: "quantizeClamped step_api 1000 ?b 2 (Fin 0) (Fin 1) = Inr [NaN, NaN]"
    unfolding quantizeClamped_outcome qn by (simp add: Math_min_def Math_max_def)
  from le q c n cn show ?thesis by simp
qed

text \<open>
  Claim C6, as the code has it. \<open>quantizeClamped(p, min, max)\<close> throws what \<open>quantize(p)\<close>
  throws; otherwise its result is the table of \<open>quantize(p)\<close> with every entry \<open>x\<close>
  replaced by the binary32 rounding of \<open>Math.min(max, Math.max(min, x))\<close>. When
  \<open>min <= max\<close>, every entry whose unclamped value is not \<open>NaN\<close> lies between the binary32
  roundings of \<open>min\<close> and \<open>max\<close>; and the result agrees with \<open>quantize(p)\<close> at every
  position whose unclamped value already lies in \<open>[min, max]\<close>.
\<close>

theorem quantizeClamped_clamps:
  "(\<forall>e. quantize api L cs p = Inl e \<longrightarrow> quantizeClamped api L cs p lo hi = Inl e) \<and>
   (\<forall>t. quantize api L cs p = Inr t \<longrightarrow>
      quantizeClamped api L cs p lo hi
        = Inr (map (\<lambda>x. fround (Math_min hi (Math_max lo x))) t)) \<and>
   (\<forall>t r. quantize api L cs p = Inr t \<and> quantizeClamped api L cs p lo hi = Inr r \<longrightarrow>
      length r = length t \<and>
      (\<forall>j. j < length t \<and> js_le lo hi \<and> t ! j \<noteq> NaN \<longrightarrow>
         js_le (fround lo) (r ! j) \<and> js_le (r ! j) (fround hi)) \<and>
      (\<forall>j. j < length t \<and> js_le lo (t ! j) \<and> js_le (t ! j) hi \<longrightarrow> r ! j = t ! j))"
proof (intro conjI allI impI)
  fix e assume "quantize api L cs p = Inl e"
  then show "quantizeClamped api L cs p lo hi = Inl e" by (simp add: quantizeClamped_outcome)
next
  fix t assume "quantize api L cs p = Inr t"
  then show "quantizeClamped api L cs p lo hi
        = Inr (map (\<lambda>x. fround (Math_min hi (Math_max lo x))) t)"
    by (simp add: quantizeClamped_outcome)
next
  fix t r assume "quantize api L cs p = Inr t \<and> quantizeClamped api L cs p lo hi = Inr r"
  then show "length r = length t" by (auto simp: quantizeClamped_outcome)
next
  fix t r j
  assume a: "quantize api L cs p = Inr t \<and> quantizeClamped api L cs p lo hi = Inr r"
    and b: "j < length t \<and> js_le lo hi \<and> t ! j \<noteq> NaN"
  from a have r: "r = map (\<lambda>x. fround (Math_min hi (Math_max lo x))) t"
    by (auto simp: quantizeClamped_outcome)
  from b have lower: "js_le lo (Math_min hi (Math_max lo (t ! j)))"
    and upper: "js_le (Math_min hi (Math_max lo (t ! j))) hi"
    by (simp_all add: clamp_in_range)
  have "js_le (fround lo) (fround (Math_min hi (Math_max lo (t ! j))))"
    using lower by (rule fround_mono)
  moreover have "js_le (fround (Math_min hi (Math_max lo (t ! j)))) (fround hi)"
    using upper by (rule fround_mono)
  ultimately show "js_le (fround lo) (r ! j)" and "js_le (r ! j) (fround hi)"
    using b by (simp_all add: r)
next
  fix t r j
  assume a: "quantize api L cs p = Inr t \<and> quantizeClamped api L cs p lo hi = Inr r"
    and b: "j < length t \<and> js_le lo (t ! j) \<and> js_le (t ! j) hi"
  from a have r: "r = map (\<lambda>x. fround (Math_min hi (Math_max lo x))) t"
    by (auto simp: quantizeClamped_outcome)
  from a b have "fround (t ! j) = t ! j" by (intro quantize_entries_binary32 [of api L cs p]) simp_all
  with b show "r ! j = t ! j" by (simp add: r clamp_identity)
qed

text \<open>Two step curves clamped into [1, 2], and a table beyond the array limit.\<close>

theorem quantizeClamped_clamps_witness:
  "quantize step_api 1000 \<lparr>curves = [(Fin 0, Fin 3), (Fin (3 / 2), Fin (3 / 2))], curve_type = 1\<rparr> 3
     = Inr [Fin 0, Fin (3 / 2), Fin 0, Fin (3 / 2), Fin 3, Fin (3 / 2)] \<and>
   quantizeClamped step_api 1000
       \<lparr>curves = [(Fin 0, Fin 3), (Fin (3 / 2), Fin (3 / 2))], curve_type = 1\<rparr> 3 (Fin 1) (Fin 2)
     = Inr [Fin 1, Fin (3 / 2), Fin 1, Fin (3 / 2), Fin 2, Fin (3 / 2)] \<and>
   js_le (Fin 1) (Fin 2) \<and>
   js_le (fround (Fin 1)) ([Fin 1, Fin (3 / 2), Fin 1, Fin (3 / 2), Fin 2, Fin (3 / 2)] ! 4) \<and>
   js_le ([Fin 1, Fin (3 / 2), Fin 1, Fin (3 / 2), Fin 2, Fin (3 / 2)] ! 4) (fround (Fin 2)) \<and>
   js_le (Fin 1) ([Fin 0, Fin (3 / 2), Fin 0, Fin (3 / 2), Fin 3, Fin (3 / 2)] ! 1) \<and>
   js_le ([Fin 0, Fin (3 / 2), Fin 0, Fin (3 / 2), Fin 3, Fin (3 / 2)] ! 1) (Fin 2) \<and>
   [Fin 1, Fin (3 / 2), Fin 1, Fin (3 / 2), Fin 2, Fin (3 / 2)] ! 1
     = [Fin 0, Fin (3 / 2), Fin 0, Fin (3 / 2), Fin 3, Fin (3 / 2)] ! 1 \<and>
   quantize step_api 5 \<lparr>curves = [(Fin 0, Fin 3), (Fin (3 / 2), Fin (3 / 2))], curve_type = 1\<rparr> 3
     = Inl RangeError \<and>
   quantizeClamped step_api 5
       \<lparr>curves = [(Fin 0, Fin 3), (Fin (3 / 2), Fin (3 / 2))], curve_type = 1\<rparr> 3 (Fin 1) (Fin 2)
     = Inl RangeError"
proof -
  let ?cs = "\<lparr>curves = [(Fin 0, Fin 3), (Fin (3 / 2), Fin (3 / 2))], curve_type = 1\<rparr>
               :: (js_number \<times> js_number) CurveSet"
  let ?t = "[Fin 0, Fin (3 / 2), Fin 0, Fin (3 / 2), Fin 3, Fin (3 / 2)]"
  let ?r = "[Fin 1, Fin (3 / 2), Fin 1, Fin (3 / 2), Fin 2, Fin (3 / 2)]"
  have q: "quantize step_api 1000 ?cs 3 = Inr ?t" by (simp add: curve_eval)
  have e: "quantize step_api 5 ?cs 3 = Inl RangeError" by (simp add: curve_eval)
  note th = quantizeClamped_clamps [of step_api 1000 ?cs 3 "Fin 1" "Fin 2"]
  from th q have "quantizeClamped step_api 1000 ?cs 3 (Fin 1) (Fin 2)
      = Inr (map (\<lambda>x. fround (Math_min (Fin 2) (Math_max (Fin 1) x))) ?t)"
    by blast
  then have c: "quantizeClamped step_api 1000 ?cs 3 (Fin 1) (Fin 2) = Inr ?r"
    by (simp add: Math_min_def Math_max_def num_eval)
  have le: "js_le (Fin 1) (Fin 2)" by simp
  from th q c
  have rng: "\<forall>j. j < length ?t \<and> js_le (Fin 1) (Fin 2) \<and> ?t ! j \<noteq> NaN \<longrightarrow>
         js_le (fround (Fin 1)) (?r ! j) \<and> js_le (?r ! j) (fround (Fin 2))"
    and agr: "\<forall>j. j < length ?t \<and> js_le (Fin 1) (?t ! j) \<and> js_le (?t ! j) (Fin 2) \<longrightarrow>
         ?r ! j = ?t ! j"
    by blast+
  have r4: "js_le (fround (Fin 1)) (?r ! 4) \<and> js_le (?r ! 4) (fround (Fin 2))"
    using rng [rule_format, of 4] by simp
  have in1: "js_le (Fin 1) (?t ! 1) \<and> js_le (?t ! 1) (Fin 2)" by simp
  have a1: "?r ! 1 = ?t ! 1" using agr [rule_format, of 1] in1 by simp
  from quantizeClamped_clamps [of step_api 5 ?cs 3 "Fin 1" "Fin 2"] e
  have ce: "quantizeClamped step_api 5 ?cs 3 (Fin 1) (Fin 2) = Inl RangeError" by blast
  from q c le r4 in1 a1 e ce show ?thesis by blast
qed

text \<open>
  Claim C7 as stated: on a set of one curve, \<open>get(1)\<close> and \<open>get(-1)\<close> return
  \<open>undefined\<close>; no error is raised.
\<close>

theorem get_out_of_range_counterexample:
  "CurveSet_get \<lparr>curves = [(0::real, 3::real)], curve_type = 1\<rparr> 1 = Inr Undefined \<and>
   CurveSet_get \<lparr>curves = [(0::real, 3::real)], curve_type = 1\<rparr> (- 1) = Inr Undefined"
  by (simp add: CurveSet_get_def)

text \<open>
  Claim C7, amended. \<open>get(index)\<close> returns the curve at that position for every index
  in range; for an index out of range it raises nothing and returns \<open>undefined\<close>.
\<close>

theorem get_in_and_out_of_range:
  "(0 \<le> i \<and> i < int (length (curves cs)) \<longrightarrow>
      CurveSet_get cs i = Inr (Defined (curves cs ! nat i))) \<and>
   (\<not> (0 \<le> i \<and> i < int (length (curves cs))) \<longrightarrow> CurveSet_get cs i = Inr Undefined)"
  by (simp add: CurveSet_get_def)

theorem get_in_and_out_of_range_witness:
  "CurveSet_get \<lparr>curves = [(0::real, 3::real), (34, 37)], curve_type = 1\<rparr> 1 = Inr (Defined (34, 37)) \<and>
   CurveSet_get \<lparr>curves = [(0::real, 3::real), (34, 37)], curve_type = 1\<rparr> 2 = Inr Undefined"
proof -
  let ?cs = "\<lparr>curves = [(0::real, 3::real), (34, 37)], curve_type = 1\<rparr>"
  have "(0::int) \<le> 1 \<and> 1 < int (length (curves ?cs))" by simp
  with get_in_and_out_of_range [of 1 ?cs]
  have a: "CurveSet_get ?cs 1 = Inr (Defined (curves ?cs ! nat 1))" by blast
  have "\<not> ((0::int) \<le> 2 \<and> 2 < int (length (curves ?cs)))" by simp
  with get_in_and_out_of_range [of 2 ?cs]
  have b: "CurveSet_get ?cs 2 = Inr Undefined" by blast
  from a b show ?thesis by simp
qed


section \<open>Properties of the colour strings\<close>

lemmas color_eval =
  Color_toString_def Math_round_def shl_def ToInt32_def toString16_def hex_nat.simps
  hex_char_def Color_fromString_def parseInt16_def is_space_def strip_0x_def digit_val_def
  intToBytes32_def intToBytes24_def Color_set_def Let_def

subsection \<open>Claims about the colour strings\<close>

text \<open>
  Claim C8 says that for every alpha in [0,1] \<open>toString(true)\<close> appends exactly two hex
  digits. The source pads with \<open>'0'\<close> when \<open>this.a < 16 / 255\<close>, but the byte it prints is
  \<open>Math.round(this.a * 255)\<close>, which is already 16 (two digits) for an alpha from
  \<open>15.5 / 255\<close> up to \<open>16 / 255\<close>. For the colour (1, 1, 1, 0.0625) the alpha field is
  \<open>010\<close>: three digits. All the numbers involved are dyadic, so binary64 computes them
  exactly.
\<close>

theorem toString_alpha_field_three_digits:
  "Color_toString \<lparr>c_r = 1, c_g = 1, c_b = 1, c_a = 1 / 16\<rparr> False = ''#ffffff'' \<and>
   Color_toString \<lparr>c_r = 1, c_g = 1, c_b = 1, c_a = 1 / 16\<rparr> True = ''#ffffff010'' \<and>
   Math_round (1 / 16 * 255) = 16"
  by (simp add: color_eval)

text \<open>
  Claim C9 says that \<open>fromString(toString(true))\<close> gives back every channel \<open>x\<close> as
  \<open>round(x * 255) / 255\<close>. For the colour (1, 1, 1, 0.0625) the string has nine hex digits
  (the three-digit alpha field of claim C8), and reading it back shifts the channels: blue
  comes back as \<open>240 / 255\<close>, not as \<open>255 / 255\<close>.
\<close>

theorem fromString_toString_not_quantized:
  "Color_toString \<lparr>c_r = 1, c_g = 1, c_b = 1, c_a = 1 / 16\<rparr> True = ''#ffffff010'' \<and>
   Color_fromString (Color_toString \<lparr>c_r = 1, c_g = 1, c_b = 1, c_a = 1 / 16\<rparr> True)
     = \<lparr>c_r = 1, c_g = 1, c_b = 240 / 255, c_a = 16 / 255\<rparr> \<and>
   Color_fromString (Color_toString \<lparr>c_r = 1, c_g = 1, c_b = 1, c_a = 1 / 16\<rparr> True)
     \<noteq> \<lparr>c_r = real_of_int (Math_round (1 * 255)) / 255, c_g = real_of_int (Math_round (1 * 255)) / 255,
         c_b = real_of_int (Math_round (1 * 255)) / 255,
         c_a = real_of_int (Math_round (1 / 16 * 255)) / 255\<rparr>"
proof -
  have s: "Color_toString \<lparr>c_r = 1, c_g = 1, c_b = 1, c_a = 1 / 16\<rparr> True = ''#ffffff010''"
    by (simp add: color_eval)
  have f: "Color_fromString ''#ffffff010'' = \<lparr>c_r = 1, c_g = 1, c_b = 240 / 255, c_a = 16 / 255\<rparr>"
    by (simp add: color_eval)
  have r: "Math_round (1 * 255) = 255" "Math_round (1 / 16 * 255) = 16"
    by (simp_all add: Math_round_def)
  show ?thesis unfolding s f r by simp
qed

end
